theory Spec2Isabelle
  imports Complex_Main "HOL-Library.Multiset"
begin

section \<open>Data model\<close>

text \<open>
  The assembler of \<^verbatim>\<open>src/content/assembler.ts\<close> works on positioned text items.
  JavaScript numbers are modelled as exact rationals: the model covers finite numbers and
  exact arithmetic, so neither NaN, the infinities nor binary rounding occur in it.
  A JavaScript string is the list of its UTF-16 code units, each a natural number, so that
  \<^verbatim>\<open>text.length\<close> is the length of the list.  A thrown \<^verbatim>\<open>TypeError\<close>
  (reading a property of \<^verbatim>\<open>undefined\<close>) is the value \<open>None\<close> of an option result.
\<close>

type_synonym js_string = "nat list"

record TextItem =
  item_text :: js_string
  item_x :: rat
  item_y :: rat
  item_fontSize :: rat
  item_fontName :: js_string
  item_width :: rat
  item_textObjectId :: "nat option"

record TaggedEntry =
  entry_item :: TextItem
  entry_i :: nat

record GapInfo =
  gap_rightX :: rat
  gap_fontSize :: rat

record ColumnRegion =
  region_start :: nat
  region_end :: nat
  region_boundaryX :: rat

definition MIN_COLUMN_RUN :: nat where "MIN_COLUMN_RUN = 3"
definition COLUMN_GAP_FACTOR :: rat where "COLUMN_GAP_FACTOR = 3"
definition MAX_GAPLESS_BRIDGE :: nat where "MAX_GAPLESS_BRIDGE = 3"

section \<open>The gap classifier\<close>

definition shouldInsertSpace :: "rat \<Rightarrow> rat \<Rightarrow> nat \<Rightarrow> rat \<Rightarrow> bool \<Rightarrow> bool" where
  "shouldInsertSpace xGap posGap textLen fontSize hasMetricWidth =
     (if hasMetricWidth then xGap > fontSize * 0.15
      else (let estimatedRunWidth = of_nat (max textLen 1) * fontSize * 0.5
            in posGap > estimatedRunWidth))"

section \<open>Array.prototype.sort with a comparator\<close>

text \<open>
  \<^verbatim>\<open>Array.prototype.sort\<close> is stable.  For a comparator that is a consistent total
  preorder the result is unique, and it is the result of the insertion sort below, which
  puts an element before the first element that does not compare smaller.  For a comparator
  that is not consistent ECMAScript leaves the order to the implementation; the model
  then fixes the order of this insertion sort.  The comparator of the sort by y is
  consistent, and so is the comparator of a line none of whose fragments carries a
  text-object id; only the order inside a line with text-object ids depends on this choice.
\<close>

fun insort_cmp :: "('a \<Rightarrow> 'a \<Rightarrow> rat) \<Rightarrow> 'a \<Rightarrow> 'a list \<Rightarrow> 'a list" where
  "insort_cmp c a [] = [a]"
| "insort_cmp c a (b # bs) = (if c a b \<le> 0 then a # b # bs else b # insort_cmp c a bs)"

definition array_sort :: "('a \<Rightarrow> 'a \<Rightarrow> rat) \<Rightarrow> 'a list \<Rightarrow> 'a list" where
  "array_sort c xs = foldr (insort_cmp c) xs []"

section \<open>Column detection\<close>

definition orElse :: "rat \<Rightarrow> rat \<Rightarrow> rat" where
  \<comment> \<open>\<^verbatim>\<open>a || b\<close> on numbers: zero is falsy.\<close>
  "orElse a b = (if a \<noteq> 0 then a else b)"

definition itemRightEdge :: "TaggedEntry \<Rightarrow> rat" where
  "itemRightEdge entry =
     (let it = entry_item entry
      in item_x it + orElse (item_width it)
           (of_nat (length (item_text it)) * orElse (item_fontSize it) 12 * 0.6))"

definition lineIsOneSide :: "TaggedEntry list \<Rightarrow> rat \<Rightarrow> bool" where
  "lineIsOneSide line boundary =
     (list_all (\<lambda>e. itemRightEdge e < boundary) line \<or>
      list_all (\<lambda>e. item_x (entry_item e) \<ge> boundary) line)"

fun gapScan :: "rat \<Rightarrow> rat \<times> rat \<Rightarrow> TaggedEntry list \<Rightarrow> rat \<times> rat" where
  "gapScan minGap (maxGap, maxGapRightX) (p # c # rest) =
     (let prev = entry_item p;
          curr = entry_item c;
          prevEnd = item_x prev + orElse (item_width prev)
             (of_nat (length (item_text prev)) * orElse (item_fontSize prev) 12 * 0.6);
          gap = item_x curr - prevEnd
      in gapScan minGap
           (if gap > minGap \<and> gap > maxGap then (gap, item_x curr) else (maxGap, maxGapRightX))
           (c # rest))"
| "gapScan minGap acc [p] = acc"
| "gapScan minGap acc [] = acc"

definition findDominantColumnGap :: "TaggedEntry list \<Rightarrow> GapInfo option" where
  "findDominantColumnGap line =
     (case line of
        e0 # _ # _ \<Rightarrow>
          (let fontSize = orElse (item_fontSize (entry_item e0)) 12;
               minGap = fontSize * COLUMN_GAP_FACTOR;
               (maxGap, maxGapRightX) = gapScan minGap (0, 0) line
           in if maxGap > 0 then Some \<lparr>gap_rightX = maxGapRightX, gap_fontSize = fontSize\<rparr>
              else None)
      | _ \<Rightarrow> None)"

definition first_entry :: "TaggedEntry list \<Rightarrow> TaggedEntry option" where
  \<comment> \<open>\<^verbatim>\<open>line[0]\<close>, whose \<^verbatim>\<open>.item\<close> is then read: a TypeError on an empty line.\<close>
  "first_entry line = (case line of [] \<Rightarrow> None | e # _ \<Rightarrow> Some e)"

text \<open>
  The inner loop of \<^verbatim>\<open>detectColumnRegions\<close> over the variables
  \<^verbatim>\<open>sumRX\<close>, \<^verbatim>\<open>count\<close>, \<^verbatim>\<open>gaplessRun\<close> and \<^verbatim>\<open>j\<close>;
  the result is \<open>(sumRX, count, j)\<close> at the \<^verbatim>\<open>break\<close> or at the end of the lines.
\<close>

function growRegion ::
  "TaggedEntry list list \<Rightarrow> GapInfo option list \<Rightarrow> rat \<Rightarrow> rat \<Rightarrow> nat \<Rightarrow> nat \<Rightarrow> nat
     \<Rightarrow> (rat \<times> nat \<times> nat) option" where
  "growRegion lines gaps tolerance sumRX cnt gaplessRun j =
     (if j < length gaps then
        (case gaps ! j of
           Some g \<Rightarrow>
             if \<bar>gap_rightX g - sumRX / of_nat cnt\<bar> > tolerance then Some (sumRX, cnt, j)
             else growRegion lines gaps tolerance (sumRX + gap_rightX g) (cnt + 1) 0 (j + 1)
         | None \<Rightarrow>
             if gaplessRun \<ge> MAX_GAPLESS_BRIDGE then Some (sumRX, cnt, j)
             else
               (case first_entry (lines ! j) of
                  None \<Rightarrow> None
                | Some cur \<Rightarrow>
                   (case first_entry (lines ! (j - 1)) of
                      None \<Rightarrow> None
                    | Some prv \<Rightarrow>
                       if \<bar>item_y (entry_item cur) - item_y (entry_item prv)\<bar>
                            > orElse (item_fontSize (entry_item prv)) 12 * 2.5
                       then Some (sumRX, cnt, j)
                       else if \<not> lineIsOneSide (lines ! j) (sumRX / of_nat cnt)
                       then Some (sumRX, cnt, j)
                       else growRegion lines gaps tolerance sumRX cnt (gaplessRun + 1) (j + 1))))
      else Some (sumRX, cnt, j))"
  by pat_completeness auto
termination
  by (relation "measure (\<lambda>(lines, gaps, tolerance, sumRX, cnt, gaplessRun, j). length gaps - j)")
     auto

text \<open>The backward extension loop over \<^verbatim>\<open>start\<close> and \<^verbatim>\<open>backGapless\<close>.\<close>

function extendBack ::
  "TaggedEntry list list \<Rightarrow> GapInfo option list \<Rightarrow> rat \<Rightarrow> rat \<Rightarrow> nat \<Rightarrow> nat \<Rightarrow> nat \<Rightarrow> nat" where
  "extendBack lines gaps tolerance boundaryX minStart start backGapless =
     (if start > minStart then
        (case gaps ! (start - 1) of
           Some prev \<Rightarrow>
             if \<bar>gap_rightX prev - boundaryX\<bar> > tolerance then start
             else extendBack lines gaps tolerance boundaryX minStart (start - 1) 0
         | None \<Rightarrow>
             if backGapless \<ge> MAX_GAPLESS_BRIDGE then start
             else if \<not> lineIsOneSide (lines ! (start - 1)) boundaryX then start
             else extendBack lines gaps tolerance boundaryX minStart (start - 1) (backGapless + 1))
      else start)"
  by pat_completeness auto
termination
  by (relation "measure (\<lambda>(lines, gaps, tolerance, boundaryX, minStart, start, backGapless). start)")
     auto

declare growRegion.simps [simp del]
declare extendBack.simps [simp del]

lemma growRegion_index:
  "growRegion lines gaps tolerance sumRX cnt gaplessRun j = Some (sumRX', cnt', j')
     \<Longrightarrow> j \<le> j' \<and> (j \<le> length gaps \<longrightarrow> j' \<le> length gaps)"
proof (induction lines gaps tolerance sumRX cnt gaplessRun j rule: growRegion.induct)
  case (1 lines gaps tolerance sumRX cnt gaplessRun j)
  note eq = growRegion.simps[of lines gaps tolerance sumRX cnt gaplessRun j]
  show ?case
  proof (cases "j < length gaps")
    case False
    with "1.prems" show ?thesis by (simp add: eq)
  next
    case True
    show ?thesis
    proof (cases "gaps ! j")
      case (Some g)
      with True "1.prems" "1.IH"(2)[OF True Some] show ?thesis
        by (auto simp: eq split: if_splits)
    next
      case None
      with True "1.prems" "1.IH"(1)[OF True None] show ?thesis
        by (fastforce simp: eq split: if_splits option.splits)
    qed
  qed
qed

text \<open>The outer loop of \<^verbatim>\<open>detectColumnRegions\<close> over \<^verbatim>\<open>i\<close> and \<^verbatim>\<open>regions\<close>.\<close>

function detectLoop ::
  "TaggedEntry list list \<Rightarrow> GapInfo option list \<Rightarrow> nat \<Rightarrow> ColumnRegion list
     \<Rightarrow> ColumnRegion list option" where
  "detectLoop lines gaps i regions =
     (if i < length gaps then
        (case gaps ! i of
           None \<Rightarrow> detectLoop lines gaps (i + 1) regions
         | Some anchor \<Rightarrow>
             (case growRegion lines gaps (gap_fontSize anchor * 3) (gap_rightX anchor) 1 0 (i + 1) of
                None \<Rightarrow> None
              | Some (sumRX, cnt, j) \<Rightarrow>
                  if cnt \<ge> MIN_COLUMN_RUN then
                    (let tolerance = gap_fontSize anchor * 3;
                         boundaryX = sumRX / of_nat cnt;
                         minStart = (if regions \<noteq> [] then region_end (last regions) else 0);
                         start = extendBack lines gaps tolerance boundaryX minStart i 0
                     in detectLoop lines gaps j
                          (regions @ [\<lparr>region_start = start, region_end = j,
                                       region_boundaryX = boundaryX\<rparr>]))
                  else detectLoop lines gaps (i + 1) regions))
      else Some regions)"
  by pat_completeness auto
termination
proof (relation "measure (\<lambda>(lines, gaps, i, regions). length gaps - i)", goal_cases)
  case 1
  show ?case by simp
next
  case (2 lines gaps i regions)
  then show ?case by simp
next
  case (3 lines gaps i regions anchor res sumRX rest cnt j)
  then have "i + 1 \<le> j" using growRegion_index by blast
  with 3 show ?case by simp
next
  case (4 lines gaps i regions anchor res sumRX rest cnt j)
  then show ?case by simp
qed

declare detectLoop.simps [simp del]

definition detectColumnRegions :: "TaggedEntry list list \<Rightarrow> ColumnRegion list option" where
  "detectColumnRegions lines = detectLoop lines (map findDominantColumnGap lines) 0 []"

section \<open>Column reordering\<close>

definition splitEntries ::
  "rat \<Rightarrow> TaggedEntry list \<Rightarrow> TaggedEntry list \<times> TaggedEntry list" where
  "splitEntries splitX line =
     foldl (\<lambda>(l, r) entry.
              if item_x (entry_item entry) < splitX then (l @ [entry], r) else (l, r @ [entry]))
       ([], []) line"

definition regionStep ::
  "TaggedEntry list list \<Rightarrow> ColumnRegion
     \<Rightarrow> TaggedEntry list list \<times> TaggedEntry list list \<Rightarrow> nat
     \<Rightarrow> TaggedEntry list list \<times> TaggedEntry list list" where
  "regionStep lines region = (\<lambda>(left, right) j.
     (let splitX = (case findDominantColumnGap (lines ! j) of
                      Some lineGap \<Rightarrow> gap_rightX lineGap
                    | None \<Rightarrow> region_boundaryX region);
          (l, r) = splitEntries splitX (lines ! j)
      in (if length l > 0 then left @ [l] else left,
          if length r > 0 then right @ [r] else right)))"

text \<open>
  One iteration of the loop over the regions; the state is \<open>(result, lineIdx)\<close>.
  The lines before the region are pushed while \<^verbatim>\<open>lineIdx < region.start\<close>; the regions
  that \<open>detectColumnRegions\<close> returns lie inside the list of lines (lemma
  \<open>detectColumnRegions_wf\<close> below), so that every index read here is in range.
\<close>

definition reorderStep ::
  "TaggedEntry list list \<Rightarrow> TaggedEntry list list \<times> nat \<Rightarrow> ColumnRegion
     \<Rightarrow> TaggedEntry list list \<times> nat" where
  "reorderStep lines = (\<lambda>(result, lineIdx) region.
     (let result1 = result @ map (\<lambda>k. lines ! k) [lineIdx..<region_start region];
          (left, right) =
             foldl (regionStep lines region) ([], []) [region_start region..<region_end region]
      in (result1 @ left @ right, region_end region)))"

definition reorderColumnRegions :: "TaggedEntry list list \<Rightarrow> TaggedEntry list list option" where
  "reorderColumnRegions lines =
     (case detectColumnRegions lines of
        None \<Rightarrow> None
      | Some regions \<Rightarrow>
          if length regions = 0 then Some lines
          else (let (result, lineIdx) = foldl (reorderStep lines) ([], 0) regions
                in Some (result @ map (\<lambda>k. lines ! k) [lineIdx..<length lines])))"

section \<open>Sorting the items of a page\<close>

text \<open>Phase 2: the clustering loop over \<^verbatim>\<open>tagged[1..]\<close> with \<^verbatim>\<open>lines\<close> and
  \<^verbatim>\<open>currentLine\<close>; \<^verbatim>\<open>currentLine\<close> is never empty at the head of the loop.\<close>

fun clusterLines ::
  "TaggedEntry list list \<Rightarrow> TaggedEntry list \<Rightarrow> TaggedEntry list \<Rightarrow> TaggedEntry list list" where
  "clusterLines lines currentLine [] =
     (if length currentLine > 0 then lines @ [currentLine] else lines)"
| "clusterLines lines currentLine (t # ts) =
     (let prev = last currentLine;
          yDelta = \<bar>item_y (entry_item t) - item_y (entry_item prev)\<bar>;
          threshold = (if item_fontSize (entry_item prev) > 0
                       then item_fontSize (entry_item prev) else 12) * 0.5
      in if yDelta > threshold then clusterLines (lines @ [currentLine]) [t] ts
         else clusterLines lines (currentLine @ [t]) ts)"

text \<open>Phase 3: the map from text object to its least x on the line, and the comparator.\<close>

definition objMinX_of :: "TaggedEntry list \<Rightarrow> (nat \<rightharpoonup> rat)" where
  "objMinX_of line =
     foldl (\<lambda>m entry.
              case item_textObjectId (entry_item entry) of
                None \<Rightarrow> m
              | Some objId \<Rightarrow>
                  (case m objId of
                     None \<Rightarrow> m(objId \<mapsto> item_x (entry_item entry))
                   | Some existing \<Rightarrow>
                       if item_x (entry_item entry) < existing
                       then m(objId \<mapsto> item_x (entry_item entry)) else m))
       Map.empty line"

definition lineCompare :: "(nat \<rightharpoonup> rat) \<Rightarrow> TaggedEntry \<Rightarrow> TaggedEntry \<Rightarrow> rat" where
  "lineCompare objMinX a b =
     (let objA = item_textObjectId (entry_item a);
          objB = item_textObjectId (entry_item b);
          minXA = (case objA of None \<Rightarrow> 0 | Some k \<Rightarrow> (case objMinX k of None \<Rightarrow> 0 | Some v \<Rightarrow> v));
          minXB = (case objB of None \<Rightarrow> 0 | Some k \<Rightarrow> (case objMinX k of None \<Rightarrow> 0 | Some v \<Rightarrow> v))
      in if objA \<noteq> None \<and> objB \<noteq> None \<and> objA \<noteq> objB \<and> \<bar>minXA - minXB\<bar> > 0.1
         then minXA - minXB
         else if objA \<noteq> None \<and> objA = objB then of_nat (entry_i a) - of_nat (entry_i b)
         else orElse (item_x (entry_item a)) 0 - orElse (item_x (entry_item b)) 0)"

definition sortLine :: "TaggedEntry list \<Rightarrow> TaggedEntry list" where
  "sortLine line = array_sort (lineCompare (objMinX_of line)) line"

definition tagItems :: "TextItem list \<Rightarrow> TaggedEntry list" where
  "tagItems items =
     map (\<lambda>(item, i). \<lparr>entry_item = item, entry_i = i\<rparr>) (zip items [0..<length items])"

definition yCompare :: "TaggedEntry \<Rightarrow> TaggedEntry \<Rightarrow> rat" where
  "yCompare a b = orElse (item_y (entry_item b)) 0 - orElse (item_y (entry_item a)) 0"

definition sortedLines :: "TextItem list \<Rightarrow> TaggedEntry list list option" where
  \<comment> \<open>Phases 1 to 3 of \<^verbatim>\<open>sortTextItems\<close> on a non-empty array.\<close>
  "sortedLines items =
     (case array_sort yCompare (tagItems items) of
        [] \<Rightarrow> None
      | t0 # rest \<Rightarrow> Some (map sortLine (clusterLines [] [t0] rest)))"

definition sortTextItems :: "TextItem list \<Rightarrow> TextItem list option" where
  "sortTextItems items =
     (if length items = 0 then Some []
      else (case sortedLines items of
              None \<Rightarrow> None
            | Some lines \<Rightarrow>
               (case reorderColumnRegions lines of
                  None \<Rightarrow> None
                | Some reordered \<Rightarrow> Some (map entry_item (concat reordered)))))"

section \<open>Placeholder stripping and PUA normalisation\<close>

text \<open>
  The regular expressions of the source use literals, character classes, greedy repetition of
  a character class, sequence, alternation, lookahead and the end of input.  Their matcher
  is the backtracking matcher of ECMAScript in continuation-passing style: the continuation
  is the rest of the pattern, and a repetition tries the longest run first.  The result is
  the input left after the match.
\<close>

datatype regex =
    Lit nat
  | Class "nat \<Rightarrow> bool"
  | Star "nat \<Rightarrow> bool"
  | Plus "nat \<Rightarrow> bool"
  | Seq regex regex
  | Alt regex regex
  | Ahead regex
  | Eos

fun star_match :: "(nat \<Rightarrow> bool) \<Rightarrow> nat list \<Rightarrow> (nat list \<Rightarrow> nat list option) \<Rightarrow> nat list option" where
  "star_match p [] k = k []"
| "star_match p (c # cs) k =
     (if p c then (case star_match p cs k of Some r \<Rightarrow> Some r | None \<Rightarrow> k (c # cs))
      else k (c # cs))"

fun rmatch :: "regex \<Rightarrow> nat list \<Rightarrow> (nat list \<Rightarrow> nat list option) \<Rightarrow> nat list option" where
  "rmatch (Lit c) s k = (case s of [] \<Rightarrow> None | d # ds \<Rightarrow> if d = c then k ds else None)"
| "rmatch (Class p) s k = (case s of [] \<Rightarrow> None | d # ds \<Rightarrow> if p d then k ds else None)"
| "rmatch (Star p) s k = star_match p s k"
| "rmatch (Plus p) s k = (case s of [] \<Rightarrow> None | d # ds \<Rightarrow> if p d then star_match p ds k else None)"
| "rmatch (Seq a b) s k = rmatch a s (\<lambda>s'. rmatch b s' k)"
| "rmatch (Alt a b) s k = (case rmatch a s k of Some r \<Rightarrow> Some r | None \<Rightarrow> rmatch b s k)"
| "rmatch (Ahead a) s k = (case rmatch a s Some of Some r \<Rightarrow> k s | None \<Rightarrow> None)"
| "rmatch Eos s k = (if s = [] then k s else None)"

text \<open>
  \<^verbatim>\<open>text.replace(re, '')\<close> for a global expression: the scan goes on after a match; at
  an empty match, and where nothing matches, the character is kept and the scan moves on by
  one.
\<close>

fun replace_all :: "regex \<Rightarrow> nat list \<Rightarrow> nat list" where
  "replace_all re [] = []"
| "replace_all re (c # cs) =
     (case rmatch re (c # cs) Some of
        Some rest \<Rightarrow>
          if length rest < length (c # cs) then replace_all re rest else c # replace_all re cs
      | None \<Rightarrow> c # replace_all re cs)"

definition backslash :: nat where "backslash = 92"

definition isAlpha :: "nat \<Rightarrow> bool" where
  \<comment> \<open>\<^verbatim>\<open>[a-zA-Z]\<close>\<close>
  "isAlpha c = ((97 \<le> c \<and> c \<le> 122) \<or> (65 \<le> c \<and> c \<le> 90))"

definition isAnchorChar :: "nat \<Rightarrow> bool" where
  \<comment> \<open>\<^verbatim>\<open>[a-zA-Z_]\<close>\<close>
  "isAnchorChar c = (isAlpha c \<or> c = 95)"

definition isDigit :: "nat \<Rightarrow> bool" where
  \<comment> \<open>\<^verbatim>\<open>\d\<close>\<close>
  "isDigit c = (48 \<le> c \<and> c \<le> 57)"

definition isSpace :: "nat \<Rightarrow> bool" where
  \<comment> \<open>\<^verbatim>\<open>\s\<close>: the white space and line terminator code units of ECMAScript\<close>
  "isSpace c = ((9 \<le> c \<and> c \<le> 13) \<or> c = 32 \<or> c = 160 \<or> c = 5760 \<or> (8192 \<le> c \<and> c \<le> 8202)
     \<or> c = 8232 \<or> c = 8233 \<or> c = 8239 \<or> c = 8287 \<or> c = 12288 \<or> c = 65279)"

definition selfClosingAnchor :: regex where
  \<comment> \<open>\<^verbatim>\<open>\\[a-zA-Z_]+\d*\\\<close>\<close>
  "selfClosingAnchor = Seq (Lit backslash) (Seq (Plus isAnchorChar) (Seq (Star isDigit) (Lit backslash)))"

definition openAnchor :: regex where
  \<comment> \<open>\<^verbatim>\<open>\\[a-zA-Z_]+\d+(?=[\s\\a-zA-Z]|$)\<close>\<close>
  "openAnchor = Seq (Lit backslash) (Seq (Plus isAnchorChar) (Seq (Plus isDigit)
     (Ahead (Alt (Class (\<lambda>c. isSpace c \<or> c = backslash \<or> isAlpha c)) Eos))))"

definition orphanDelimiter :: regex where
  \<comment> \<open>\<^verbatim>\<open> \\(?=[\s]|$)\<close>\<close>
  "orphanDelimiter = Seq (Lit 32) (Seq (Lit backslash) (Ahead (Alt (Class isSpace) Eos)))"

definition FORM_PLACEHOLDER_RE :: regex where
  "FORM_PLACEHOLDER_RE = Alt selfClosingAnchor (Alt openAnchor orphanDelimiter)"

definition TRAILING_BACKSLASH_RE :: regex where
  \<comment> \<open>\<^verbatim>\<open>\\(?=\s|$)\<close>\<close>
  "TRAILING_BACKSLASH_RE = Seq (Lit backslash) (Ahead (Alt (Class isSpace) Eos))"

definition stripFormPlaceholderText :: "js_string \<Rightarrow> js_string" where
  "stripFormPlaceholderText text =
     replace_all TRAILING_BACKSLASH_RE (replace_all FORM_PLACEHOLDER_RE text)"

definition PUA_TO_UNICODE :: "(nat \<times> nat) list" where
  "PUA_TO_UNICODE =
     [(0xF020, 0x0020), (0xF02D, 0x2212), (0xF06C, 0x2113), (0xF06E, 0x25CF), (0xF0A0, 0x20AC),
      (0xF0A7, 0x00A7), (0xF0A8, 0x2190), (0xF0A9, 0x2191), (0xF0AA, 0x2192), (0xF0AB, 0x2193),
      (0xF0AC, 0x2194), (0xF0B0, 0x00B0), (0xF0B1, 0x00B1), (0xF0B2, 0x2033), (0xF0B3, 0x2265),
      (0xF0B4, 0x00D7), (0xF0B5, 0x221D), (0xF0B7, 0x2022), (0xF0B9, 0x2260), (0xF0BA, 0x2261),
      (0xF0BB, 0x2248), (0xF0D8, 0x00D8), (0xF0E0, 0x21D0), (0xF0E1, 0x21D1), (0xF0E2, 0x21D2),
      (0xF0E3, 0x21D3), (0xF0E4, 0x21D4)]"

definition normalizePUA :: "js_string \<Rightarrow> js_string" where
  "normalizePUA text =
     concat (map (\<lambda>ch. if 0xE000 \<le> ch \<and> ch \<le> 0xF8FF
                        then (case map_of PUA_TO_UNICODE ch of Some mapped \<Rightarrow> [mapped] | None \<Rightarrow> [])
                        else [ch]) text)"

section \<open>The walk over the sorted items\<close>

record LinkAnnotation =
  link_x1 :: rat
  link_y1 :: rat
  link_x2 :: rat
  link_y2 :: rat
  link_uri :: js_string

fun findLinkForItem :: "TextItem \<Rightarrow> LinkAnnotation list \<Rightarrow> js_string option" where
  "findLinkForItem item [] = None"
| "findLinkForItem item (link # links) =
     (let itemCenterX = item_x item + orElse (item_width item) 0 / 2;
          itemY = item_y item
      in if itemCenterX \<ge> link_x1 link \<and> itemCenterX \<le> link_x2 link \<and>
            itemY \<ge> link_y1 link \<and> itemY \<le> link_y2 link
         then Some (link_uri link)
         else findLinkForItem item links)"

record 's ItemVisitor =
  onLineBreak :: "TextItem \<Rightarrow> bool \<Rightarrow> 's \<Rightarrow> 's"
  onSpace :: "'s \<Rightarrow> 's"
  onItem :: "TextItem \<Rightarrow> js_string option \<Rightarrow> 's \<Rightarrow> 's"
  onEnd :: "'s \<Rightarrow> 's"

record WalkState =
  lastX :: rat
  lastY :: rat
  lastFontSize :: rat
  lastWidth :: rat
  lastHasMetricWidth :: bool
  lastTextLen :: nat
  hasContent :: bool

text \<open>One iteration of the loop of \<^verbatim>\<open>walkItems\<close>: the walk state and the state
  of the visitor before and after the item.\<close>

definition walkStep ::
  "'s ItemVisitor \<Rightarrow> LinkAnnotation list \<Rightarrow> WalkState \<times> 's \<Rightarrow> TextItem \<Rightarrow> WalkState \<times> 's" where
  "walkStep visitor links = (\<lambda>(st, s) item.
     if item_text item = [] then (st, s)
     else
       (let yDelta = \<bar>item_y item - lastY st\<bar>;
            lineThreshold = lastFontSize st * 0.5;
            itemLink = findLinkForItem item links;
            s1 = (if yDelta > lineThreshold \<and> hasContent st
                  then onLineBreak visitor item (yDelta > lastFontSize st * 1.8) s
                  else if hasContent st
                  then (let xGap = item_x item - (lastX st + lastWidth st);
                            posGap = item_x item - lastX st
                        in if xGap < - lastFontSize st * 2 \<or>
                              shouldInsertSpace xGap posGap (lastTextLen st) (lastFontSize st)
                                (lastHasMetricWidth st)
                           then onSpace visitor s else s)
                  else s);
            s2 = onItem visitor item itemLink s1;
            fs = orElse (item_fontSize item) (lastFontSize st)
        in (\<lparr>lastX = item_x item, lastY = item_y item, lastFontSize = fs,
             lastWidth = orElse (item_width item) (of_nat (length (item_text item)) * fs * 0.6),
             lastHasMetricWidth = (item_width item > 0),
             lastTextLen = length (item_text item),
             hasContent = True\<rparr>, s2)))"

definition initialWalkState :: "TextItem \<Rightarrow> WalkState" where
  "initialWalkState first =
     \<lparr>lastX = 0, lastY = item_y first, lastFontSize = orElse (item_fontSize first) 12,
      lastWidth = 0, lastHasMetricWidth = False, lastTextLen = 0, hasContent = False\<rparr>"

definition walkSorted :: "'s ItemVisitor \<Rightarrow> LinkAnnotation list \<Rightarrow> TextItem list \<Rightarrow> 's \<Rightarrow> 's option" where
  \<comment> \<open>the body of \<^verbatim>\<open>walkItems\<close> after the sort; \<^verbatim>\<open>sorted[0].y\<close> throws on an empty array\<close>
  "walkSorted visitor links sortedItems s =
     (case sortedItems of
        [] \<Rightarrow> None
      | first # _ \<Rightarrow>
          Some (onEnd visitor (snd (foldl (walkStep visitor links) (initialWalkState first, s) sortedItems))))"

definition walkItems :: "TextItem list \<Rightarrow> LinkAnnotation list \<Rightarrow> 's ItemVisitor \<Rightarrow> 's \<Rightarrow> 's option" where
  "walkItems items links visitor s =
     (case sortTextItems items of
        None \<Rightarrow> None
      | Some sortedItems \<Rightarrow> walkSorted visitor links sortedItems s)"

text \<open>A visitor that records the calls it receives, in order.\<close>

datatype walk_event =
    EvLineBreak TextItem bool
  | EvSpace
  | EvItem TextItem "js_string option"
  | EvEnd

definition traceVisitor :: "walk_event list ItemVisitor" where
  "traceVisitor =
     \<lparr>onLineBreak = (\<lambda>item isParagraphBreak evs. evs @ [EvLineBreak item isParagraphBreak]),
      onSpace = (\<lambda>evs. evs @ [EvSpace]),
      onItem = (\<lambda>item link evs. evs @ [EvItem item link]),
      onEnd = (\<lambda>evs. evs @ [EvEnd])\<rparr>"

definition stepEvents :: "LinkAnnotation list \<Rightarrow> WalkState \<Rightarrow> TextItem \<Rightarrow> walk_event list" where
  \<comment> \<open>the visitor calls of one iteration\<close>
  "stepEvents links st item = snd (walkStep traceVisitor links (st, []) item)"

section \<open>The structured sink\<close>

record TextSpan =
  span_text :: js_string
  span_bold :: bool
  span_italic :: bool
  span_link :: "js_string option"

record StructuredLine =
  line_text :: js_string
  line_spans :: "TextSpan list"
  line_fontSize :: rat
  line_y :: rat
  line_isBlankAfter :: bool

record SinkState =
  result :: "StructuredLine list"
  currentSpans :: "TextSpan list"
  currentText :: js_string
  currentFontSize :: rat
  currentY :: rat

definition toLowerAscii :: "nat \<Rightarrow> nat" where
  "toLowerAscii c = (if 65 \<le> c \<and> c \<le> 90 then c + 32 else c)"

fun js_includes :: "nat list \<Rightarrow> nat list \<Rightarrow> bool" where
  "js_includes [] needle = (needle = [])"
| "js_includes (c # cs) needle = (take (length needle) (c # cs) = needle \<or> js_includes cs needle)"

definition detectFontStyle :: "js_string \<Rightarrow> bool \<times> bool" where
  \<comment> \<open>Modelled from the spec: \<^verbatim>\<open>font-style.ts\<close> is not among the sources.  Bold iff
      the name contains "bold", italic iff it contains "italic" or "oblique", case-insensitively.\<close>
  "detectFontStyle fontName =
     (let lower = map toLowerAscii fontName
      in (js_includes lower [98, 111, 108, 100],
          js_includes lower [105, 116, 97, 108, 105, 99] \<or>
          js_includes lower [111, 98, 108, 105, 113, 117, 101]))"

definition pushLine :: "bool \<Rightarrow> SinkState \<Rightarrow> SinkState" where
  "pushLine isBlankAfter s =
     (if currentText s \<noteq> []
      then s\<lparr>result := result s @
                [\<lparr>line_text = currentText s, line_spans = currentSpans s,
                  line_fontSize = currentFontSize s, line_y = currentY s,
                  line_isBlankAfter = isBlankAfter\<rparr>]\<rparr>
      else s)\<lparr>currentSpans := [], currentText := []\<rparr>"

definition appendToSpans :: "js_string \<Rightarrow> js_string \<Rightarrow> js_string option \<Rightarrow> SinkState \<Rightarrow> SinkState" where
  "appendToSpans rawText fontName link s =
     (let text = normalizePUA rawText;
          (bold, italic) = detectFontStyle fontName;
          spans = currentSpans s;
          spans' =
            (if spans \<noteq> [] \<and> span_bold (last spans) = bold \<and> span_italic (last spans) = italic \<and>
                span_link (last spans) = link
             then butlast spans @
                    [\<lparr>span_text = span_text (last spans) @ text, span_bold = span_bold (last spans),
                      span_italic = span_italic (last spans), span_link = span_link (last spans)\<rparr>]
             else spans @
                    [\<lparr>span_text = text, span_bold = bold, span_italic = italic,
                      span_link = (case link of Some uri \<Rightarrow> if uri \<noteq> [] then Some uri else None
                                   | None \<Rightarrow> None)\<rparr>])
      in s\<lparr>currentSpans := spans', currentText := currentText s @ text\<rparr>)"

definition structuredVisitor :: "SinkState ItemVisitor" where
  "structuredVisitor =
     \<lparr>onLineBreak = (\<lambda>item isParagraphBreak s. pushLine isParagraphBreak s),
      onSpace = (\<lambda>s.
        if currentSpans s \<noteq> []
        then s\<lparr>currentSpans := butlast (currentSpans s) @
                   [(last (currentSpans s))\<lparr>span_text := span_text (last (currentSpans s)) @ [32]\<rparr>],
               currentText := currentText s @ [32]\<rparr>
        else s),
      onItem = (\<lambda>item link s.
        (let s1 = (if currentText s = []
                   then s\<lparr>currentFontSize := item_fontSize item, currentY := item_y item\<rparr> else s);
             s2 = appendToSpans (item_text item) (item_fontName item) link s1
         in s2\<lparr>currentFontSize := max (currentFontSize s2) (item_fontSize item)\<rparr>)),
      onEnd = (\<lambda>s. pushLine False s)\<rparr>"

definition stripLine :: "StructuredLine \<Rightarrow> StructuredLine" where
  "stripLine line =
     line\<lparr>line_text := replace_all TRAILING_BACKSLASH_RE (replace_all FORM_PLACEHOLDER_RE (line_text line)),
          line_spans := map (\<lambda>span. span\<lparr>span_text :=
              replace_all TRAILING_BACKSLASH_RE (replace_all FORM_PLACEHOLDER_RE (span_text span))\<rparr>)
            (line_spans line)\<rparr>"

definition assembleStructuredItems ::
  "TextItem list \<Rightarrow> LinkAnnotation list \<Rightarrow> bool option \<Rightarrow> StructuredLine list option" where
  \<comment> \<open>the third argument is \<^verbatim>\<open>options?.stripFormPlaceholders\<close>, \<open>None\<close> when it is not given\<close>
  "assembleStructuredItems items links stripFormPlaceholders =
     (if length items = 0 then Some []
      else
        (case walkItems items links structuredVisitor
                \<lparr>result = [], currentSpans = [], currentText = [], currentFontSize = 0, currentY = 0\<rparr> of
           None \<Rightarrow> None
         | Some s \<Rightarrow>
             if (case stripFormPlaceholders of None \<Rightarrow> True | Some b \<Rightarrow> b)
             then Some (map stripLine (result s))
             else Some (result s)))"

definition aheadOk :: "nat list \<Rightarrow> bool" where
  \<comment> \<open>the lookahead of the open anchor on the rest of the input\<close>
  "aheadOk rest = (rest = [] \<or> isSpace (hd rest) \<or> hd rest = backslash \<or> isAlpha (hd rest))"

section \<open>Example inputs\<close>

definition js :: "string \<Rightarrow> js_string" where
  \<comment> \<open>the code units of an ASCII string literal\<close>
  "js s = map of_char s"

definition makeItem :: "string \<Rightarrow> rat \<Rightarrow> rat \<Rightarrow> rat \<Rightarrow> rat \<Rightarrow> TextItem" where
  \<comment> \<open>\<^verbatim>\<open>makeItem\<close> of \<^verbatim>\<open>tests/unit/assembler.test.ts\<close>: text, x, y, fontSize, width\<close>
  "makeItem t x y fontSize width =
     \<lparr>item_text = js t, item_x = x, item_y = y, item_fontSize = fontSize,
      item_fontName = js ''Helvetica'', item_width = width, item_textObjectId = None\<rparr>"

text \<open>The positions, in the concatenation of the lines, at which a line starts.\<close>

fun lineStarts :: "'a list list \<Rightarrow> nat list" where
  "lineStarts [] = []"
| "lineStarts (l # ls) = 0 # map (\<lambda>k. k + length l) (lineStarts ls)"

text \<open>The test of the clustering loop on two consecutive entries of the sorted sequence.\<close>

definition newLineAfter :: "TaggedEntry \<Rightarrow> TaggedEntry \<Rightarrow> bool" where
  "newLineAfter prev cur =
     (\<bar>item_y (entry_item cur) - item_y (entry_item prev)\<bar>
        > (if item_fontSize (entry_item prev) > 0 then item_fontSize (entry_item prev) else 12) * 0.5)"

text \<open>The test as the specification words it, with \<open>max(prevFontSize, 12)\<close>.\<close>

definition specNewLine :: "TaggedEntry \<Rightarrow> TaggedEntry \<Rightarrow> bool" where
  "specNewLine prev cur =
     (\<bar>item_y (entry_item cur) - item_y (entry_item prev)\<bar>
        > max (item_fontSize (entry_item prev)) 12 * 0.5)"

section \<open>Auxiliary notions for the properties\<close>

definition gapCount :: "GapInfo option list \<Rightarrow> nat \<Rightarrow> nat \<Rightarrow> nat" where
  \<comment> \<open>the number of lines with a qualifying gap among the lines \<open>a\<close> to \<open>b - 1\<close>\<close>
  "gapCount gaps a b = length (filter (\<lambda>k. gaps ! k \<noteq> None) [a..<b])"

fun regions_ok :: "nat \<Rightarrow> ColumnRegion list \<Rightarrow> nat \<Rightarrow> bool" where
  \<comment> \<open>the regions lie in order, without overlap, between \<open>lo\<close> and \<open>hi\<close>\<close>
  "regions_ok lo [] hi = (lo \<le> hi)"
| "regions_ok lo (r # rs) hi =
     (lo \<le> region_start r \<and> region_start r \<le> region_end r \<and> regions_ok (region_end r) rs hi)"

definition qualifyingGapLines :: "TaggedEntry list list \<Rightarrow> nat \<Rightarrow> nat \<Rightarrow> nat" where
  \<comment> \<open>the number of lines with a qualifying gap among the lines \<open>a\<close> to \<open>b - 1\<close>\<close>
  "qualifyingGapLines lines a b =
     length (filter (\<lambda>k. findDominantColumnGap (lines ! k) \<noteq> None) [a..<b])"

definition tagged :: "TextItem \<Rightarrow> nat \<Rightarrow> TaggedEntry" where
  "tagged item i = \<lparr>entry_item = item, entry_i = i\<rparr>"

definition twoRowItems :: "TextItem list" where
  \<comment> \<open>two lines with a gap, of the test "does not trigger column detection for only 2 lines"\<close>
  "twoRowItems =
     [makeItem ''Left1'' 50 700 12 60, makeItem ''Right1'' 350 700 12 60,
      makeItem ''Left2'' 50 685 12 60, makeItem ''Right2'' 350 685 12 60]"

definition twoRowLines :: "TaggedEntry list list" where
  "twoRowLines =
     [[tagged (makeItem ''Left1'' 50 700 12 60) 0, tagged (makeItem ''Right1'' 350 700 12 60) 1],
      [tagged (makeItem ''Left2'' 50 685 12 60) 2, tagged (makeItem ''Right2'' 350 685 12 60) 3]]"

definition threeRowItems :: "TextItem list" where
  \<comment> \<open>three lines with a gap, of the test "sortTextItems returns column-first order"\<close>
  "threeRowItems =
     [makeItem ''L1'' 50 700 12 60, makeItem ''R1'' 350 700 12 60,
      makeItem ''L2'' 50 685 12 60, makeItem ''R2'' 350 685 12 60,
      makeItem ''L3'' 50 670 12 60, makeItem ''R3'' 350 670 12 60]"

definition threeRowLines :: "TaggedEntry list list" where
  "threeRowLines =
     [[tagged (makeItem ''L1'' 50 700 12 60) 0, tagged (makeItem ''R1'' 350 700 12 60) 1],
      [tagged (makeItem ''L2'' 50 685 12 60) 2, tagged (makeItem ''R2'' 350 685 12 60) 3],
      [tagged (makeItem ''L3'' 50 670 12 60) 4, tagged (makeItem ''R3'' 350 670 12 60) 5]]"

text \<open>
  The walk state and the recorded calls after the loop of \<^verbatim>\<open>walkItems\<close> has run
  over some items, and the font size that the loop carries: an item with empty text is
  skipped, and an item with font size 0 keeps the font size carried so far.
\<close>

definition walkState :: "LinkAnnotation list \<Rightarrow> WalkState \<Rightarrow> TextItem list \<Rightarrow> WalkState" where
  "walkState links st items = fst (foldl (walkStep traceVisitor links) (st, []) items)"

definition walkEvents :: "LinkAnnotation list \<Rightarrow> WalkState \<Rightarrow> TextItem list \<Rightarrow> walk_event list" where
  "walkEvents links st items = snd (foldl (walkStep traceVisitor links) (st, []) items)"

definition carriedFontSize :: "rat \<Rightarrow> TextItem list \<Rightarrow> rat" where
  "carriedFontSize fs items =
     foldl (\<lambda>fs item. if item_text item = [] then fs else orElse (item_fontSize item) fs) fs items"

text \<open>
  The reordering as the specification words it: a line of a region is split at its own gap,
  or at the boundary of the region when it has none; a region gives its left parts from top
  to bottom and then its right parts; the lines between the regions stay as they are.
\<close>

definition splitXOf :: "ColumnRegion \<Rightarrow> TaggedEntry list \<Rightarrow> rat" where
  "splitXOf region line =
     (case findDominantColumnGap line of
        Some lineGap \<Rightarrow> gap_rightX lineGap
      | None \<Rightarrow> region_boundaryX region)"

definition leftPart :: "ColumnRegion \<Rightarrow> TaggedEntry list \<Rightarrow> TaggedEntry list" where
  "leftPart region line = filter (\<lambda>e. item_x (entry_item e) < splitXOf region line) line"

definition rightPart :: "ColumnRegion \<Rightarrow> TaggedEntry list \<Rightarrow> TaggedEntry list" where
  "rightPart region line = filter (\<lambda>e. \<not> item_x (entry_item e) < splitXOf region line) line"

definition linesFrom :: "'a list \<Rightarrow> nat \<Rightarrow> nat \<Rightarrow> 'a list" where
  \<comment> \<open>the lines \<open>a\<close> to \<open>b - 1\<close>\<close>
  "linesFrom lines a b = map (\<lambda>k. lines ! k) [a..<b]"

definition columnFirst :: "TaggedEntry list list \<Rightarrow> ColumnRegion \<Rightarrow> TaggedEntry list list" where
  "columnFirst lines region =
     filter (\<lambda>l. l \<noteq> [])
       (map (leftPart region) (linesFrom lines (region_start region) (region_end region))) @
     filter (\<lambda>l. l \<noteq> [])
       (map (rightPart region) (linesFrom lines (region_start region) (region_end region)))"

fun spec_reorder :: "TaggedEntry list list \<Rightarrow> nat \<Rightarrow> ColumnRegion list \<Rightarrow> TaggedEntry list list" where
  "spec_reorder lines pos [] = linesFrom lines pos (length lines)"
| "spec_reorder lines pos (region # regions) =
     linesFrom lines pos (region_start region) @ columnFirst lines region @
     spec_reorder lines (region_end region) regions"

definition signatureBlockItems :: "TextItem list" where
  \<comment> \<open>the two side-by-side blocks of the test "reorders side-by-side signature blocks"\<close>
  "signatureBlockItems =
     [makeItem ''Name:'' 50 700 12 60, makeItem ''Andrew Foley'' 120 700 12 60,
      makeItem ''Name:'' 350 700 12 60, makeItem ''Chris Smith'' 420 700 12 60,
      makeItem ''Title:'' 50 685 12 60, makeItem ''GM'' 120 685 12 60,
      makeItem ''Title:'' 350 685 12 60, makeItem ''Director'' 420 685 12 60,
      makeItem ''Date:'' 50 670 12 60, makeItem ''11/27/2023'' 120 670 12 60,
      makeItem ''Date:'' 350 670 12 60, makeItem ''11/27/2023'' 420 670 12 60]"

definition emptySink :: SinkState where
  \<comment> \<open>the closure variables of \<^verbatim>\<open>assembleStructuredItems\<close> before the walk\<close>
  "emptySink =
     \<lparr>result = [], currentSpans = [], currentText = [], currentFontSize = 0, currentY = 0\<rparr>"

definition textOfSpans :: "TextSpan list \<Rightarrow> js_string" where
  \<comment> \<open>the texts of the spans, concatenated in order\<close>
  "textOfSpans spans = concat (map span_text spans)"

definition sink_ok :: "SinkState \<Rightarrow> bool" where
  "sink_ok s = (currentText s = textOfSpans (currentSpans s) \<and>
     (\<forall>line\<in>set (result s). line_text line = textOfSpans (line_spans line)))"








section \<open>The walk: line breaks, paragraph breaks and spaces\<close>

lemma stepEvents_break:
  assumes "hasContent st" "item_text item \<noteq> []"
    "\<bar>item_y item - lastY st\<bar> > lastFontSize st * 0.5"
  shows "stepEvents links st item =
     [EvLineBreak item (\<bar>item_y item - lastY st\<bar> > lastFontSize st * 1.8),
      EvItem item (findLinkForItem item links)]"
  using assms by (simp add: stepEvents_def walkStep_def traceVisitor_def Let_def)

lemma stepEvents_same_line:
  assumes "hasContent st" "item_text item \<noteq> []"
    "\<not> \<bar>item_y item - lastY st\<bar> > lastFontSize st * 0.5"
  shows "stepEvents links st item =
     (if item_x item - (lastX st + lastWidth st) < - lastFontSize st * 2 \<or>
         shouldInsertSpace (item_x item - (lastX st + lastWidth st)) (item_x item - lastX st)
           (lastTextLen st) (lastFontSize st) (lastHasMetricWidth st)
      then [EvSpace] else []) @ [EvItem item (findLinkForItem item links)]"
  using assms by (simp add: stepEvents_def walkStep_def traceVisitor_def Let_def)

lemma walkStep_state:
  assumes "item_text item \<noteq> []"
  shows "fst (walkStep visitor links (st, s) item) =
     \<lparr>lastX = item_x item, lastY = item_y item,
      lastFontSize = orElse (item_fontSize item) (lastFontSize st),
      lastWidth = orElse (item_width item)
         (of_nat (length (item_text item)) * orElse (item_fontSize item) (lastFontSize st) * 0.6),
      lastHasMetricWidth = (item_width item > 0),
      lastTextLen = length (item_text item),
      hasContent = True\<rparr>"
  using assms by (simp add: walkStep_def Let_def)

lemma walkStep_trace:
  "snd (walkStep traceVisitor links (st, evs) item) = evs @ stepEvents links st item"
  by (simp add: stepEvents_def walkStep_def traceVisitor_def Let_def)

lemma walkStep_pair:
  "walkStep traceVisitor links (st, evs) item
     = (fst (walkStep traceVisitor links (st, []) item), evs @ stepEvents links st item)"
  by (simp add: stepEvents_def walkStep_def traceVisitor_def Let_def)

lemma walk_foldl:
  "foldl (walkStep traceVisitor links) (st, evs) items
     = (walkState links st items, evs @ walkEvents links st items)"
proof (induction items arbitrary: st evs)
  case Nil
  then show ?case by (simp add: walkState_def walkEvents_def)
next
  case (Cons item items)
  define st' where "st' = fst (walkStep traceVisitor links (st, []) item)"
  define e where "e = stepEvents links st item"
  have s1: "walkStep traceVisitor links (st, evs) item = (st', evs @ e)"
    unfolding st'_def e_def by (rule walkStep_pair)
  have s2: "walkStep traceVisitor links (st, []) item = (st', e)"
    unfolding st'_def e_def using walkStep_pair[of links st "[]" item] by simp
  have a: "foldl (walkStep traceVisitor links) (st, evs) (item # items)
      = (walkState links st' items, (evs @ e) @ walkEvents links st' items)"
    by (simp only: foldl_Cons s1 Cons.IH)
  have b: "foldl (walkStep traceVisitor links) (st, []) (item # items)
      = (walkState links st' items, e @ walkEvents links st' items)"
    by (simp only: foldl_Cons s2 Cons.IH)
  from b have "walkState links st (item # items) = walkState links st' items"
    "walkEvents links st (item # items) = e @ walkEvents links st' items"
    by (simp_all only: walkState_def walkEvents_def fst_conv snd_conv)
  with a show ?case by simp
qed

lemma walk_foldl_append:
  "foldl (walkStep traceVisitor links) (st, []) (xs @ ys)
     = (walkState links (walkState links st xs) ys,
        walkEvents links st xs @ walkEvents links (walkState links st xs) ys)"
proof -
  have "foldl (walkStep traceVisitor links) (st, []) (xs @ ys)
      = foldl (walkStep traceVisitor links) (walkState links st xs, walkEvents links st xs) ys"
    by (simp only: foldl_append walk_foldl[of links st "[]" xs] append_Nil)
  also have "\<dots> = (walkState links (walkState links st xs) ys,
        walkEvents links st xs @ walkEvents links (walkState links st xs) ys)"
    by (rule walk_foldl)
  finally show ?thesis .
qed

lemma walkState_append:
  "walkState links st (xs @ ys) = walkState links (walkState links st xs) ys"
proof -
  have "walkState links st (xs @ ys) = fst (foldl (walkStep traceVisitor links) (st, []) (xs @ ys))"
    by (rule walkState_def)
  also have "\<dots> = walkState links (walkState links st xs) ys"
    by (simp only: walk_foldl_append fst_conv)
  finally show ?thesis .
qed

lemma walkEvents_append:
  "walkEvents links st (xs @ ys)
     = walkEvents links st xs @ walkEvents links (walkState links st xs) ys"
proof -
  have "walkEvents links st (xs @ ys) = snd (foldl (walkStep traceVisitor links) (st, []) (xs @ ys))"
    by (rule walkEvents_def)
  also have "\<dots> = walkEvents links st xs @ walkEvents links (walkState links st xs) ys"
    by (simp only: walk_foldl_append snd_conv)
  finally show ?thesis .
qed

lemma walkState_single:
  "walkState links st [item] = fst (walkStep traceVisitor links (st, []) item)"
  by (simp add: walkState_def)

lemma walkEvents_single: "walkEvents links st [item] = stepEvents links st item"
  by (simp add: walkEvents_def stepEvents_def)

lemma walk_skipped:
  "list_all (\<lambda>i. item_text i = []) skipped \<Longrightarrow>
     walkState links st skipped = st \<and> walkEvents links st skipped = []"
proof (induction skipped)
  case Nil
  then show ?case by (simp add: walkState_def walkEvents_def)
next
  case (Cons i skipped)
  then have e: "item_text i = []" and r: "list_all (\<lambda>i. item_text i = []) skipped" by simp_all
  have s: "walkState links st [i] = st" "walkEvents links st [i] = []"
    using e by (simp_all add: walkState_def walkEvents_def walkStep_def)
  from walkState_append[of links st "[i]" skipped] walkEvents_append[of links st "[i]" skipped]
    s Cons.IH[OF r]
  show ?case by simp
qed

lemma walkState_after:
  assumes "item_text prev \<noteq> []" "list_all (\<lambda>i. item_text i = []) skipped"
  shows "walkState links st0 (pre @ prev # skipped) =
     \<lparr>lastX = item_x prev, lastY = item_y prev,
      lastFontSize = orElse (item_fontSize prev) (lastFontSize (walkState links st0 pre)),
      lastWidth = orElse (item_width prev)
         (of_nat (length (item_text prev))
            * orElse (item_fontSize prev) (lastFontSize (walkState links st0 pre)) * 0.6),
      lastHasMetricWidth = (item_width prev > 0),
      lastTextLen = length (item_text prev),
      hasContent = True\<rparr>"
proof -
  have "walkState links st0 (pre @ prev # skipped)
      = walkState links (walkState links (walkState links st0 pre) [prev]) skipped"
    using walkState_append[of links st0 pre "[prev] @ skipped"]
      walkState_append[of links "walkState links st0 pre" "[prev]" skipped] by simp
  also have "\<dots> = walkState links (walkState links st0 pre) [prev]"
    using walk_skipped[OF assms(2)] by simp
  finally show ?thesis
    using walkStep_state[OF assms(1), of traceVisitor links "walkState links st0 pre" "[]"]
    by (simp add: walkState_single)
qed

lemma lastFontSize_carried:
  "lastFontSize (walkState links st items) = carriedFontSize (lastFontSize st) items"
proof (induction items arbitrary: st)
  case Nil
  then show ?case by (simp add: walkState_def carriedFontSize_def)
next
  case (Cons item items)
  have a: "walkState links st (item # items) = walkState links (walkState links st [item]) items"
    using walkState_append[of links st "[item]" items] by simp
  have b: "lastFontSize (walkState links st [item])
      = (if item_text item = [] then lastFontSize st
         else orElse (item_fontSize item) (lastFontSize st))"
    by (simp add: walkState_single walkStep_def Let_def)
  show ?case
    by (simp only: a Cons.IH b) (simp add: carriedFontSize_def)
qed

lemma walkSorted_decompose:
  assumes "sortedItems = xs @ cur # post"
  shows "walkSorted traceVisitor links sortedItems [] =
     Some (walkEvents links (initialWalkState (hd sortedItems)) xs @
           stepEvents links (walkState links (initialWalkState (hd sortedItems)) xs) cur @
           walkEvents links (walkState links (initialWalkState (hd sortedItems)) (xs @ [cur])) post @
           [EvEnd])"
proof -
  from assms obtain f r where fr: "sortedItems = f # r" by (cases xs) auto
  have "walkEvents links (initialWalkState f) sortedItems
      = walkEvents links (initialWalkState f) xs @
        stepEvents links (walkState links (initialWalkState f) xs) cur @
        walkEvents links (walkState links (initialWalkState f) (xs @ [cur])) post"
    using walkEvents_append[of links "initialWalkState f" "xs @ [cur]" post]
      walkEvents_append[of links "initialWalkState f" xs "[cur]"] assms
    by (simp add: walkEvents_single)
  moreover have "walkSorted traceVisitor links sortedItems []
      = Some (walkEvents links (initialWalkState f) sortedItems @ [EvEnd])"
    using fr walk_foldl[of links "initialWalkState f" "[]" sortedItems]
    by (simp add: walkSorted_def traceVisitor_def del: foldl_Cons)
  ultimately show ?thesis using fr by simp
qed

lemma carriedFontSize_append:
  "carriedFontSize fs (xs @ ys) = carriedFontSize (carriedFontSize fs xs) ys"
  by (simp add: carriedFontSize_def)

lemma carriedFontSize_skipped:
  "list_all (\<lambda>i. item_text i = []) skipped \<Longrightarrow> carriedFontSize fs skipped = fs"
  by (induction skipped arbitrary: fs) (simp_all add: carriedFontSize_def)

lemma carriedFontSize_last:
  "item_text prev \<noteq> [] \<Longrightarrow>
     carriedFontSize fs (pre @ [prev]) = orElse (item_fontSize prev) (carriedFontSize fs pre)"
  by (simp add: carriedFontSize_def)

lemma walk_pair_state:
  assumes "item_text prev \<noteq> []" "list_all (\<lambda>i. item_text i = []) skipped"
  shows "walkState links (initialWalkState first) (pre @ prev # skipped) =
     \<lparr>lastX = item_x prev, lastY = item_y prev,
      lastFontSize = carriedFontSize (orElse (item_fontSize first) 12) (pre @ [prev]),
      lastWidth = orElse (item_width prev)
         (of_nat (length (item_text prev))
            * carriedFontSize (orElse (item_fontSize first) 12) (pre @ [prev]) * 0.6),
      lastHasMetricWidth = (item_width prev > 0),
      lastTextLen = length (item_text prev),
      hasContent = True\<rparr>"
proof -
  have "lastFontSize (walkState links (initialWalkState first) pre)
      = carriedFontSize (orElse (item_fontSize first) 12) pre"
    using lastFontSize_carried[of links "initialWalkState first" pre]
    by (simp add: initialWalkState_def)
  then show ?thesis
    using walkState_after[OF assms, of links "initialWalkState first" pre]
      carriedFontSize_last[OF assms(1), of "orElse (item_fontSize first) 12" pre]
    by simp
qed

text \<open>
  Claim C2.  In the walk over any final order, take a fragment \<open>cur\<close> and the fragment
  \<open>prev\<close> emitted before it (items with empty text between them are skipped).  At \<open>cur\<close> the
  walk state holds the position of \<open>prev\<close> and the carried font size \<open>F\<close>, which is the font
  size of \<open>prev\<close> unless that is 0.  The visitor calls made for \<open>cur\<close> contain a line break
  iff \<open>|y - lastY| > F * 0.5\<close>, and that line break is a paragraph break iff
  \<open>|y - lastY| > F * 1.8\<close>.  With font size 12, fragments at y = 100 and y = 93 give a line
  break that is no paragraph break, and fragments at y = 100 and y = 76 give a paragraph break.
\<close>

theorem walk_break_classification:
  assumes "sortedItems = pre @ prev # skipped @ cur # post"
    and "item_text prev \<noteq> []" and "item_text cur \<noteq> []"
    and "list_all (\<lambda>i. item_text i = []) skipped"
    and "init = initialWalkState (hd sortedItems)"
    and "st = walkState links init (pre @ prev # skipped)"
    and "F = carriedFontSize (orElse (item_fontSize (hd sortedItems)) 12) (pre @ [prev])"
    and "yDelta = \<bar>item_y cur - item_y prev\<bar>"
  shows "walkSorted traceVisitor links sortedItems [] =
           Some (walkEvents links init (pre @ prev # skipped) @ stepEvents links st cur @
                 walkEvents links (walkState links init ((pre @ prev # skipped) @ [cur])) post @
                 [EvEnd]) \<and>
         hasContent st \<and> lastY st = item_y prev \<and> lastFontSize st = F \<and>
         (item_fontSize prev \<noteq> 0 \<longrightarrow> F = item_fontSize prev) \<and>
         ((\<exists>p. EvLineBreak cur p \<in> set (stepEvents links st cur)) \<longleftrightarrow> yDelta > F * 0.5) \<and>
         (\<forall>p. EvLineBreak cur p \<in> set (stepEvents links st cur) \<longrightarrow> (p \<longleftrightarrow> yDelta > F * 1.8)) \<and>
         (yDelta > F * 0.5 \<longrightarrow>
            stepEvents links st cur =
              [EvLineBreak cur (yDelta > F * 1.8), EvItem cur (findLinkForItem cur links)]) \<and>
         (item_fontSize prev = 12 \<and> item_y prev = 100 \<and> item_y cur = 93 \<longrightarrow>
            stepEvents links st cur =
              [EvLineBreak cur False, EvItem cur (findLinkForItem cur links)]) \<and>
         (item_fontSize prev = 12 \<and> item_y prev = 100 \<and> item_y cur = 76 \<longrightarrow>
            stepEvents links st cur =
              [EvLineBreak cur True, EvItem cur (findLinkForItem cur links)])"
proof -
  from assms(1) have split: "sortedItems = (pre @ prev # skipped) @ cur # post" by simp
  have dec: "walkSorted traceVisitor links sortedItems [] =
         Some (walkEvents links init (pre @ prev # skipped) @ stepEvents links st cur @
               walkEvents links (walkState links init ((pre @ prev # skipped) @ [cur])) post @
               [EvEnd])"
    unfolding assms(5,6) by (rule walkSorted_decompose[OF split])
  have st: "st = \<lparr>lastX = item_x prev, lastY = item_y prev, lastFontSize = F,
      lastWidth = orElse (item_width prev) (of_nat (length (item_text prev)) * F * 0.6),
      lastHasMetricWidth = (item_width prev > 0),
      lastTextLen = length (item_text prev), hasContent = True\<rparr>"
    unfolding assms(5,6,7) using assms(2,4) by (rule walk_pair_state)
  then have s3: "hasContent st" "lastY st = item_y prev" "lastFontSize st = F" by simp_all
  have f: "item_fontSize prev \<noteq> 0 \<longrightarrow> F = item_fontSize prev"
    using assms(2) by (simp add: assms(7) carriedFontSize_last orElse_def)
  have brk: "yDelta > F * 0.5 \<longrightarrow>
          stepEvents links st cur =
            [EvLineBreak cur (yDelta > F * 1.8), EvItem cur (findLinkForItem cur links)]"
    using stepEvents_break[of st cur links] s3 assms(3) by (simp add: assms(8))
  have same: "\<not> yDelta > F * 0.5 \<longrightarrow> (\<forall>p. EvLineBreak cur p \<notin> set (stepEvents links st cur))"
    using stepEvents_same_line[of st cur links] s3 assms(3) by (auto simp: assms(8))
  have iff1: "(\<exists>p. EvLineBreak cur p \<in> set (stepEvents links st cur)) \<longleftrightarrow> yDelta > F * 0.5"
    using brk same by (cases "yDelta > F * 0.5") auto
  have iff2: "\<forall>p. EvLineBreak cur p \<in> set (stepEvents links st cur) \<longrightarrow> (p \<longleftrightarrow> yDelta > F * 1.8)"
    using brk same by (cases "yDelta > F * 0.5") auto
  have e1: "item_fontSize prev = 12 \<and> item_y prev = 100 \<and> item_y cur = 93 \<longrightarrow>
          stepEvents links st cur = [EvLineBreak cur False, EvItem cur (findLinkForItem cur links)]"
    using brk f by (auto simp: assms(8))
  have e2: "item_fontSize prev = 12 \<and> item_y prev = 100 \<and> item_y cur = 76 \<longrightarrow>
          stepEvents links st cur = [EvLineBreak cur True, EvItem cur (findLinkForItem cur links)]"
    using brk f by (auto simp: assms(8))
  from dec s3 f iff1 iff2 brk e1 e2 show ?thesis by blast
qed

lemma ex_sort_Line:
  "sortTextItems [makeItem ''Line1'' 0 100 12 0, makeItem ''Line2'' 0 93 12 0]
     = Some [makeItem ''Line1'' 0 100 12 0, makeItem ''Line2'' 0 93 12 0]"
  by code_simp

lemma ex_sort_Para:
  "sortTextItems [makeItem ''Para1'' 0 100 12 0, makeItem ''Para2'' 0 76 12 0]
     = Some [makeItem ''Para1'' 0 100 12 0, makeItem ''Para2'' 0 76 12 0]"
  by code_simp

lemmas walk_eval_defs = walkEvents_def walkState_def walkStep_def stepEvents_def traceVisitor_def
  initialWalkState_def makeItem_def js_def orElse_def shouldInsertSpace_def Let_def

lemma makeItem_text: "item_text (makeItem t x y f w) \<noteq> [] \<longleftrightarrow> t \<noteq> []"
  by (simp add: makeItem_def js_def)

theorem walk_break_classification_witness:
  "walkSorted traceVisitor []
     [makeItem ''A'' 0 100 12 0, makeItem ''B'' 0 80 12 0, makeItem ''C'' 0 70 12 0] [] =
     Some [EvItem (makeItem ''A'' 0 100 12 0) None,
           EvLineBreak (makeItem ''B'' 0 80 12 0) False, EvItem (makeItem ''B'' 0 80 12 0) None,
           EvLineBreak (makeItem ''C'' 0 70 12 0) False, EvItem (makeItem ''C'' 0 70 12 0) None,
           EvEnd] \<and>
   walkItems [makeItem ''Line1'' 0 100 12 0, makeItem ''Line2'' 0 93 12 0] [] traceVisitor [] =
     Some [EvItem (makeItem ''Line1'' 0 100 12 0) None,
           EvLineBreak (makeItem ''Line2'' 0 93 12 0) False,
           EvItem (makeItem ''Line2'' 0 93 12 0) None, EvEnd] \<and>
   walkItems [makeItem ''Para1'' 0 100 12 0, makeItem ''Para2'' 0 76 12 0] [] traceVisitor [] =
     Some [EvItem (makeItem ''Para1'' 0 100 12 0) None,
           EvLineBreak (makeItem ''Para2'' 0 76 12 0) True,
           EvItem (makeItem ''Para2'' 0 76 12 0) None, EvEnd]"
proof -
  have f1: "12 = carriedFontSize (orElse (item_fontSize (hd [makeItem ''A'' 0 100 12 0,
       makeItem ''B'' 0 80 12 0, makeItem ''C'' 0 70 12 0])) 12)
       ([makeItem ''A'' 0 100 12 0] @ [makeItem ''B'' 0 80 12 0])"
    by (simp add: carriedFontSize_def makeItem_def js_def orElse_def)
  have y1: "10 = \<bar>item_y (makeItem ''C'' 0 70 12 0) - item_y (makeItem ''B'' 0 80 12 0)\<bar>"
    by (simp add: makeItem_def)
  have s1: "[makeItem ''A'' 0 100 12 0, makeItem ''B'' 0 80 12 0, makeItem ''C'' 0 70 12 0]
      = [makeItem ''A'' 0 100 12 0] @ makeItem ''B'' 0 80 12 0 # [] @ makeItem ''C'' 0 70 12 0 # []"
    by simp
  note c1 = walk_break_classification[OF s1 _ _ _ refl refl f1 y1, of "[]"]
  have t1: "item_text (makeItem ''B'' 0 80 12 0) \<noteq> []" "item_text (makeItem ''C'' 0 70 12 0) \<noteq> []"
    "list_all (\<lambda>i. item_text i = []) []"
    by (simp_all add: makeItem_text)
  from c1[OF t1] have w1: "walkSorted traceVisitor []
     [makeItem ''A'' 0 100 12 0, makeItem ''B'' 0 80 12 0, makeItem ''C'' 0 70 12 0] [] =
     Some [EvItem (makeItem ''A'' 0 100 12 0) None,
           EvLineBreak (makeItem ''B'' 0 80 12 0) False, EvItem (makeItem ''B'' 0 80 12 0) None,
           EvLineBreak (makeItem ''C'' 0 70 12 0) False, EvItem (makeItem ''C'' 0 70 12 0) None,
           EvEnd]"
    by (simp add: walk_eval_defs)
  have f2: "12 = carriedFontSize (orElse (item_fontSize (hd [makeItem ''Line1'' 0 100 12 0,
       makeItem ''Line2'' 0 93 12 0])) 12) ([] @ [makeItem ''Line1'' 0 100 12 0])"
    by (simp add: carriedFontSize_def makeItem_def js_def orElse_def)
  have s2: "[makeItem ''Line1'' 0 100 12 0, makeItem ''Line2'' 0 93 12 0]
      = [] @ makeItem ''Line1'' 0 100 12 0 # [] @ makeItem ''Line2'' 0 93 12 0 # []"
    by simp
  have t2: "item_text (makeItem ''Line1'' 0 100 12 0) \<noteq> []"
    "item_text (makeItem ''Line2'' 0 93 12 0) \<noteq> []" "list_all (\<lambda>i. item_text i = []) []"
    by (simp_all add: makeItem_text)
  from walk_break_classification[OF s2 t2 refl refl f2 refl, of "[]"]
  have w2: "walkSorted traceVisitor []
      [makeItem ''Line1'' 0 100 12 0, makeItem ''Line2'' 0 93 12 0] [] =
     Some [EvItem (makeItem ''Line1'' 0 100 12 0) None,
           EvLineBreak (makeItem ''Line2'' 0 93 12 0) False,
           EvItem (makeItem ''Line2'' 0 93 12 0) None, EvEnd]"
    by (simp add: walk_eval_defs)
  have f3: "12 = carriedFontSize (orElse (item_fontSize (hd [makeItem ''Para1'' 0 100 12 0,
       makeItem ''Para2'' 0 76 12 0])) 12) ([] @ [makeItem ''Para1'' 0 100 12 0])"
    by (simp add: carriedFontSize_def makeItem_def js_def orElse_def)
  have s3: "[makeItem ''Para1'' 0 100 12 0, makeItem ''Para2'' 0 76 12 0]
      = [] @ makeItem ''Para1'' 0 100 12 0 # [] @ makeItem ''Para2'' 0 76 12 0 # []"
    by simp
  have t3: "item_text (makeItem ''Para1'' 0 100 12 0) \<noteq> []"
    "item_text (makeItem ''Para2'' 0 76 12 0) \<noteq> []" "list_all (\<lambda>i. item_text i = []) []"
    by (simp_all add: makeItem_text)
  from walk_break_classification[OF s3 t3 refl refl f3 refl, of "[]"]
  have w3: "walkSorted traceVisitor []
      [makeItem ''Para1'' 0 100 12 0, makeItem ''Para2'' 0 76 12 0] [] =
     Some [EvItem (makeItem ''Para1'' 0 100 12 0) None,
           EvLineBreak (makeItem ''Para2'' 0 76 12 0) True,
           EvItem (makeItem ''Para2'' 0 76 12 0) None, EvEnd]"
    by (simp add: walk_eval_defs)
  from w1 w2 w3 show ?thesis by (simp add: walkItems_def ex_sort_Line ex_sort_Para)
qed

text \<open>
  Claim C3.  In the walk over any final order, take a fragment \<open>cur\<close> and the fragment
  \<open>prev\<close> emitted before it, on the same line (\<open>|y - lastY| \<le> F * 0.5\<close> for the carried font
  size \<open>F\<close>).  At \<open>cur\<close> the walk state holds x, width (metric, or estimated from the text
  length), text length and metric-width flag of \<open>prev\<close>.  A space is signalled iff
  \<open>xGap < - F * 2\<close> or the gap classifier holds, with \<open>xGap = x - (lastX + lastWidth)\<close> and
  \<open>posGap = x - lastX\<close>; the classifier is \<open>xGap > fontSize * 0.15\<close> when the width of
  \<open>prev\<close> is positive and \<open>posGap > max(textLen, 1) * fontSize * 0.5\<close> otherwise.
\<close>

theorem walk_space_classification:
  assumes "sortedItems = pre @ prev # skipped @ cur # post"
    and "item_text prev \<noteq> []" and "item_text cur \<noteq> []"
    and "list_all (\<lambda>i. item_text i = []) skipped"
    and "init = initialWalkState (hd sortedItems)"
    and "st = walkState links init (pre @ prev # skipped)"
    and "F = carriedFontSize (orElse (item_fontSize (hd sortedItems)) 12) (pre @ [prev])"
    and "W = orElse (item_width prev) (of_nat (length (item_text prev)) * F * 0.6)"
    and "xGap = item_x cur - (item_x prev + W)"
    and "posGap = item_x cur - item_x prev"
    and "\<bar>item_y cur - item_y prev\<bar> \<le> F * 0.5"
  shows "walkSorted traceVisitor links sortedItems [] =
           Some (walkEvents links init (pre @ prev # skipped) @ stepEvents links st cur @
                 walkEvents links (walkState links init ((pre @ prev # skipped) @ [cur])) post @
                 [EvEnd]) \<and>
         hasContent st \<and> lastY st = item_y prev \<and> lastFontSize st = F \<and>
         lastX st = item_x prev \<and> lastWidth st = W \<and>
         lastTextLen st = length (item_text prev) \<and>
         lastHasMetricWidth st = (item_width prev > 0) \<and>
         (EvSpace \<in> set (stepEvents links st cur) \<longleftrightarrow>
            xGap < - F * 2 \<or>
            shouldInsertSpace xGap posGap (length (item_text prev)) F (item_width prev > 0)) \<and>
         stepEvents links st cur =
            (if xGap < - F * 2 \<or>
                shouldInsertSpace xGap posGap (length (item_text prev)) F (item_width prev > 0)
             then [EvSpace] else []) @ [EvItem cur (findLinkForItem cur links)] \<and>
         (item_width prev > 0 \<longrightarrow>
            (EvSpace \<in> set (stepEvents links st cur) \<longleftrightarrow> xGap < - F * 2 \<or> xGap > F * 0.15)) \<and>
         (\<not> item_width prev > 0 \<longrightarrow>
            (EvSpace \<in> set (stepEvents links st cur) \<longleftrightarrow>
               xGap < - F * 2 \<or> posGap > of_nat (max (length (item_text prev)) 1) * F * 0.5)) \<and>
         shouldInsertSpace g p n fs True = (g > fs * 0.15) \<and>
         shouldInsertSpace g p n fs False = (p > of_nat (max n 1) * fs * 0.5)"
proof -
  from assms(1) have split: "sortedItems = (pre @ prev # skipped) @ cur # post" by simp
  have dec: "walkSorted traceVisitor links sortedItems [] =
         Some (walkEvents links init (pre @ prev # skipped) @ stepEvents links st cur @
               walkEvents links (walkState links init ((pre @ prev # skipped) @ [cur])) post @
               [EvEnd])"
    unfolding assms(5,6) by (rule walkSorted_decompose[OF split])
  have st: "st = \<lparr>lastX = item_x prev, lastY = item_y prev, lastFontSize = F,
      lastWidth = W, lastHasMetricWidth = (item_width prev > 0),
      lastTextLen = length (item_text prev), hasContent = True\<rparr>"
    unfolding assms(5,6,7,8) using assms(2,4) by (rule walk_pair_state)
  then have s7: "hasContent st" "lastY st = item_y prev" "lastFontSize st = F"
    "lastX st = item_x prev" "lastWidth st = W" "lastTextLen st = length (item_text prev)"
    "lastHasMetricWidth st = (item_width prev > 0)" by simp_all
  have ev: "stepEvents links st cur =
            (if xGap < - F * 2 \<or>
                shouldInsertSpace xGap posGap (length (item_text prev)) F (item_width prev > 0)
             then [EvSpace] else []) @ [EvItem cur (findLinkForItem cur links)]"
    using stepEvents_same_line[of st cur links] s7 assms(3,11) by (simp add: assms(9,10))
  then have sp: "EvSpace \<in> set (stepEvents links st cur) \<longleftrightarrow>
            xGap < - F * 2 \<or>
            shouldInsertSpace xGap posGap (length (item_text prev)) F (item_width prev > 0)"
    by auto
  have c1: "shouldInsertSpace g p n fs True = (g > fs * 0.15)" for g p n fs
    by (simp add: shouldInsertSpace_def)
  have c2: "shouldInsertSpace g p n fs False = (p > of_nat (max n 1) * fs * 0.5)" for g p n fs
    by (simp add: shouldInsertSpace_def Let_def)
  have m: "item_width prev > 0 \<longrightarrow>
            (EvSpace \<in> set (stepEvents links st cur) \<longleftrightarrow> xGap < - F * 2 \<or> xGap > F * 0.15)"
    using sp c1 by simp
  have nm: "\<not> item_width prev > 0 \<longrightarrow>
            (EvSpace \<in> set (stepEvents links st cur) \<longleftrightarrow>
               xGap < - F * 2 \<or> posGap > of_nat (max (length (item_text prev)) 1) * F * 0.5)"
    using sp c2 by simp
  from dec s7 sp ev m nm c1[of g p n fs] c2[of g p n fs] show ?thesis by blast
qed

theorem walk_space_classification_witness:
  "walkSorted traceVisitor []
     [makeItem ''H'' 0 100 12 30, makeItem ''W'' 40 100 12 25, makeItem ''F'' 66 100 12 10] [] =
     Some [EvItem (makeItem ''H'' 0 100 12 30) None,
           EvSpace, EvItem (makeItem ''W'' 40 100 12 25) None,
           EvItem (makeItem ''F'' 66 100 12 10) None,
           EvEnd] \<and>
   EvSpace \<notin> set (stepEvents []
      (walkState [] (initialWalkState (makeItem ''H'' 0 100 12 30))
         ([makeItem ''H'' 0 100 12 30] @ makeItem ''W'' 40 100 12 25 # []))
      (makeItem ''F'' 66 100 12 10)) \<and>
   shouldInsertSpace 5 0 1 12 True \<and> \<not> shouldInsertSpace 5 0 1 12 False"
proof -
  have f1: "12 = carriedFontSize (orElse (item_fontSize (hd [makeItem ''H'' 0 100 12 30,
       makeItem ''W'' 40 100 12 25, makeItem ''F'' 66 100 12 10])) 12)
       ([makeItem ''H'' 0 100 12 30] @ [makeItem ''W'' 40 100 12 25])"
    by (simp add: carriedFontSize_def makeItem_def js_def orElse_def)
  have w1: "25 = orElse (item_width (makeItem ''W'' 40 100 12 25))
       (of_nat (length (item_text (makeItem ''W'' 40 100 12 25))) * 12 * 0.6)"
    by (simp add: makeItem_def orElse_def)
  have x1: "1 = item_x (makeItem ''F'' 66 100 12 10) - (item_x (makeItem ''W'' 40 100 12 25) + 25)"
    "26 = item_x (makeItem ''F'' 66 100 12 10) - item_x (makeItem ''W'' 40 100 12 25)"
    "\<bar>item_y (makeItem ''F'' 66 100 12 10) - item_y (makeItem ''W'' 40 100 12 25)\<bar> \<le> 12 * 0.5"
    by (simp_all add: makeItem_def)
  have s1: "[makeItem ''H'' 0 100 12 30, makeItem ''W'' 40 100 12 25, makeItem ''F'' 66 100 12 10]
      = [makeItem ''H'' 0 100 12 30] @ makeItem ''W'' 40 100 12 25 # []
          @ makeItem ''F'' 66 100 12 10 # []"
    by simp
  have t1: "item_text (makeItem ''W'' 40 100 12 25) \<noteq> []"
    "item_text (makeItem ''F'' 66 100 12 10) \<noteq> []" "list_all (\<lambda>i. item_text i = []) []"
    by (simp_all add: makeItem_text)
  note c = walk_space_classification[OF s1 t1 refl refl f1 w1 x1, of "[]" 5 0 1 12]
  have wd: "item_width (makeItem ''W'' 40 100 12 25) > 0" by (simp add: makeItem_def)
  from c wd have ns: "EvSpace \<notin> set (stepEvents []
      (walkState [] (initialWalkState (hd [makeItem ''H'' 0 100 12 30,
           makeItem ''W'' 40 100 12 25, makeItem ''F'' 66 100 12 10]))
         ([makeItem ''H'' 0 100 12 30] @ makeItem ''W'' 40 100 12 25 # []))
      (makeItem ''F'' 66 100 12 10))"
    by (simp add: shouldInsertSpace_def)
  from c have cl: "shouldInsertSpace 5 0 1 12 True \<and> \<not> shouldInsertSpace 5 0 1 12 False"
    by simp
  from c have tr: "walkSorted traceVisitor []
     [makeItem ''H'' 0 100 12 30, makeItem ''W'' 40 100 12 25, makeItem ''F'' 66 100 12 10] [] =
     Some [EvItem (makeItem ''H'' 0 100 12 30) None,
           EvSpace, EvItem (makeItem ''W'' 40 100 12 25) None,
           EvItem (makeItem ''F'' 66 100 12 10) None,
           EvEnd]"
    by (simp add: walk_eval_defs)
  from ns cl tr show ?thesis by simp
qed

section \<open>Placeholder stripping\<close>

lemma star_match_some:
  "list_all p pre \<Longrightarrow> suf = [] \<or> \<not> p (hd suf) \<Longrightarrow> k suf = Some r
     \<Longrightarrow> star_match p (pre @ suf) k = Some r"
proof (induction pre)
  case Nil
  then show ?case by (cases suf) auto
next
  case (Cons c pre)
  then show ?case by simp
qed

lemma star_match_sound:
  "star_match p s k = Some r \<Longrightarrow> \<exists>pre suf. s = pre @ suf \<and> list_all p pre \<and> k suf = Some r"
proof (induction s)
  case Nil
  then show ?case by simp
next
  case (Cons c s)
  show ?case
  proof (cases "p c \<and> star_match p s k = Some r")
    case True
    with Cons.IH obtain pre suf where "s = pre @ suf" "list_all p pre" "k suf = Some r" by blast
    then have "c # s = (c # pre) @ suf \<and> list_all p (c # pre) \<and> k suf = Some r"
      using True by simp
    then show ?thesis by blast
  next
    case False
    with Cons.prems have "k (c # s) = Some r"
      by (auto split: if_splits option.splits)
    then have "c # s = [] @ (c # s) \<and> list_all p [] \<and> k (c # s) = Some r" by simp
    then show ?thesis by blast
  qed
qed

lemma star_match_none:
  "(\<And>pre suf. s = pre @ suf \<Longrightarrow> list_all p pre \<Longrightarrow> k suf = None) \<Longrightarrow> star_match p s k = None"
proof (induction s)
  case Nil
  then show ?case by simp
next
  case (Cons c s)
  have here: "k (c # s) = None" using Cons.prems[of "[]" "c # s"] by simp
  show ?case
  proof (cases "p c")
    case False
    with here show ?thesis by simp
  next
    case True
    have "star_match p s k = None"
    proof (rule Cons.IH)
      fix pre suf assume "s = pre @ suf" "list_all p pre"
      then show "k suf = None" using Cons.prems[of "c # pre" suf] True by simp
    qed
    with here True show ?thesis by simp
  qed
qed

lemma digit_not_anchor: "isDigit c \<Longrightarrow> \<not> isAnchorChar c"
  unfolding isDigit_def isAnchorChar_def isAlpha_def by linarith

lemma ahead_not_digit: "isSpace c \<or> c = backslash \<or> isAlpha c \<Longrightarrow> \<not> isDigit c"
  unfolding isDigit_def isSpace_def isAlpha_def backslash_def by linarith

lemma ahead_eval:
  "rmatch (Ahead (Alt (Class (\<lambda>c. isSpace c \<or> c = backslash \<or> isAlpha c)) Eos)) s Some
     = (if aheadOk s then Some s else None)"
  by (cases s) (auto simp: aheadOk_def)

lemma openAnchor_match_iff:
  "rmatch openAnchor s Some = Some rest \<longleftrightarrow>
     (\<exists>ls ds. s = backslash # ls @ ds @ rest \<and> ls \<noteq> [] \<and> list_all isAnchorChar ls \<and>
        ds \<noteq> [] \<and> list_all isDigit ds \<and> aheadOk rest)"
  (is "?L \<longleftrightarrow> ?R")
proof
  assume ?L
  then obtain s1 where s: "s = backslash # s1"
    and m1: "rmatch (Plus isAnchorChar) s1 (\<lambda>s'. rmatch (Plus isDigit) s'
       (\<lambda>s'. rmatch (Ahead (Alt (Class (\<lambda>c. isSpace c \<or> c = backslash \<or> isAlpha c)) Eos)) s' Some)) = Some rest"
    by (cases s) (auto simp: openAnchor_def split: if_splits)
  from m1 obtain c s2 where s1: "s1 = c # s2" and c: "isAnchorChar c"
    and m2: "star_match isAnchorChar s2 (\<lambda>s'. rmatch (Plus isDigit) s'
       (\<lambda>s'. rmatch (Ahead (Alt (Class (\<lambda>c. isSpace c \<or> c = backslash \<or> isAlpha c)) Eos)) s' Some)) = Some rest"
    by (cases s1) (auto split: if_splits)
  from star_match_sound[OF m2] obtain pre suf where s2: "s2 = pre @ suf" and pre: "list_all isAnchorChar pre"
    and m3: "rmatch (Plus isDigit) suf
       (\<lambda>s'. rmatch (Ahead (Alt (Class (\<lambda>c. isSpace c \<or> c = backslash \<or> isAlpha c)) Eos)) s' Some) = Some rest"
    by blast
  from m3 obtain d s3 where suf: "suf = d # s3" and d: "isDigit d"
    and m4: "star_match isDigit s3
       (\<lambda>s'. rmatch (Ahead (Alt (Class (\<lambda>c. isSpace c \<or> c = backslash \<or> isAlpha c)) Eos)) s' Some) = Some rest"
    by (cases suf) (auto split: if_splits)
  from star_match_sound[OF m4] obtain pre2 suf2 where s3: "s3 = pre2 @ suf2"
    and pre2: "list_all isDigit pre2"
    and m5: "rmatch (Ahead (Alt (Class (\<lambda>c. isSpace c \<or> c = backslash \<or> isAlpha c)) Eos)) suf2 Some = Some rest"
    by blast
  from m5[unfolded ahead_eval] have r: "suf2 = rest" "aheadOk rest"
    by (auto split: if_splits)
  have "s = backslash # (c # pre) @ (d # pre2) @ rest" using s s1 s2 suf s3 r by simp
  moreover have "list_all isAnchorChar (c # pre)" using c pre by simp
  moreover have "list_all isDigit (d # pre2)" using d pre2 by simp
  ultimately show ?R using r(2) by blast
next
  assume ?R
  then obtain ls ds where s: "s = backslash # ls @ ds @ rest" and ls: "ls \<noteq> []" "list_all isAnchorChar ls"
    and ds: "ds \<noteq> []" "list_all isDigit ds" and ok: "aheadOk rest" by blast
  from ls obtain c ls' where lsc: "ls = c # ls'" "isAnchorChar c" "list_all isAnchorChar ls'"
    by (cases ls) auto
  from ds obtain d ds' where dsc: "ds = d # ds'" "isDigit d" "list_all isDigit ds'"
    by (cases ds) auto
  have nd: "rest = [] \<or> \<not> isDigit (hd rest)"
    using ok ahead_not_digit by (auto simp: aheadOk_def)
  have k2: "star_match isDigit (ds' @ rest)
       (\<lambda>s'. rmatch (Ahead (Alt (Class (\<lambda>c. isSpace c \<or> c = backslash \<or> isAlpha c)) Eos)) s' Some) = Some rest"
    by (rule star_match_some[OF dsc(3) nd]) (simp only: ahead_eval ok if_True)
  have k1: "star_match isAnchorChar (ls' @ (d # ds' @ rest)) (\<lambda>s'. rmatch (Plus isDigit) s'
       (\<lambda>s'. rmatch (Ahead (Alt (Class (\<lambda>c. isSpace c \<or> c = backslash \<or> isAlpha c)) Eos)) s' Some)) = Some rest"
    by (rule star_match_some[OF lsc(3)]) (use dsc(2) digit_not_anchor k2 in auto)
  show ?L using s lsc dsc k1 by (simp add: openAnchor_def)
qed


lemma star_match_det:
  "list_all p pre \<Longrightarrow> suf = [] \<or> \<not> p (hd suf) \<Longrightarrow> (\<And>c t. p c \<Longrightarrow> k (c # t) = None)
     \<Longrightarrow> star_match p (pre @ suf) k = k suf"
proof (induction pre)
  case Nil
  then show ?case by (cases suf) auto
next
  case (Cons c pre)
  then show ?case by (cases "k suf") auto
qed

lemma anchor_char_plain: "isAnchorChar c \<Longrightarrow> c \<noteq> backslash \<and> c \<noteq> 32 \<and> \<not> isDigit c \<and> \<not> isSpace c"
  unfolding isAnchorChar_def isAlpha_def backslash_def isDigit_def isSpace_def by linarith

lemma digit_plain: "isDigit c \<Longrightarrow> c \<noteq> backslash \<and> c \<noteq> 32 \<and> \<not> isSpace c \<and> \<not> isAlpha c"
  unfolding isAlpha_def backslash_def isDigit_def isSpace_def by linarith

lemma selfClosing_eval:
  assumes "ls \<noteq> []" "list_all isAnchorChar ls" "ds \<noteq> []" "list_all isDigit ds"
    "rest = [] \<or> \<not> isDigit (hd rest)"
  shows "rmatch selfClosingAnchor (backslash # ls @ ds @ rest) Some =
           (case rest of [] \<Rightarrow> None | c # r \<Rightarrow> if c = backslash then Some r else None)"
proof -
  from assms obtain c ls' where ls: "ls = c # ls'" "isAnchorChar c" "list_all isAnchorChar ls'"
    by (cases ls) auto
  have k2: "star_match isDigit (ds @ rest) (\<lambda>s'. rmatch (Lit backslash) s' Some)
              = rmatch (Lit backslash) rest Some"
    by (rule star_match_det[OF assms(4) assms(5)]) (use digit_plain in auto)
  have k1: "star_match isAnchorChar (ls' @ (ds @ rest))
              (\<lambda>s'. rmatch (Seq (Star isDigit) (Lit backslash)) s' Some)
            = rmatch (Seq (Star isDigit) (Lit backslash)) (ds @ rest) Some"
  proof (rule star_match_det[OF ls(3)])
    show "ds @ rest = [] \<or> \<not> isAnchorChar (hd (ds @ rest))"
      using assms(3,4) digit_not_anchor by (cases ds) auto
  next
    fix c t assume "isAnchorChar c"
    then show "rmatch (Seq (Star isDigit) (Lit backslash)) (c # t) Some = None"
      using anchor_char_plain[of c] by simp
  qed
  show ?thesis using ls k1 k2 by (simp add: selfClosingAnchor_def split: list.splits)
qed

lemma openAnchor_eval:
  assumes "ls \<noteq> []" "list_all isAnchorChar ls" "ds \<noteq> []" "list_all isDigit ds"
    "rest = [] \<or> \<not> isDigit (hd rest)"
  shows "rmatch openAnchor (backslash # ls @ ds @ rest) Some = (if aheadOk rest then Some rest else None)"
proof (cases "aheadOk rest")
  case True
  with assms have "\<exists>ls' ds'. backslash # ls @ ds @ rest = backslash # ls' @ ds' @ rest \<and> ls' \<noteq> [] \<and>
      list_all isAnchorChar ls' \<and> ds' \<noteq> [] \<and> list_all isDigit ds' \<and> aheadOk rest"
    by blast
  then show ?thesis using True openAnchor_match_iff by simp
next
  case False
  have "rmatch openAnchor (backslash # ls @ ds @ rest) Some = None"
  proof (rule ccontr)
    assume "rmatch openAnchor (backslash # ls @ ds @ rest) Some \<noteq> None"
    then obtain r where r: "rmatch openAnchor (backslash # ls @ ds @ rest) Some = Some r" by auto
    then obtain ls' ds' where d: "backslash # ls @ ds @ rest = backslash # ls' @ ds' @ r"
      "list_all isAnchorChar ls'" "list_all isDigit ds'" "ds' \<noteq> []" "aheadOk r"
      using openAnchor_match_iff by blast
    have r_nd: "r = [] \<or> \<not> isDigit (hd r)"
      using d(5) ahead_not_digit by (auto simp: aheadOk_def)
    have tw1: "takeWhile isAnchorChar (ls @ ds @ rest) = ls"
      using assms(2,3,4) digit_not_anchor by (cases ds) (auto simp: list_all_iff)
    have tw1': "takeWhile isAnchorChar (ls' @ ds' @ r) = ls'"
      using d(2,3,4) digit_not_anchor by (cases ds') (auto simp: list_all_iff)
    from d(1) tw1 tw1' have lseq: "ls = ls'" by simp
    with d(1) have e2: "ds @ rest = ds' @ r" by simp
    have tw2: "takeWhile isDigit (ds @ rest) = ds"
      using assms(4,5) by (cases rest) (auto simp: list_all_iff)
    have tw2': "takeWhile isDigit (ds' @ r) = ds'"
      using d(3) r_nd by (cases r) (auto simp: list_all_iff)
    from e2 tw2 tw2' have "ds = ds'" by simp
    with e2 have "rest = r" by simp
    with d(5) False show False by simp
  qed
  with False show ?thesis by simp
qed

lemma form_eval:
  assumes "ls \<noteq> []" "list_all isAnchorChar ls" "ds \<noteq> []" "list_all isDigit ds"
    "rest = [] \<or> \<not> isDigit (hd rest)"
  shows "rmatch FORM_PLACEHOLDER_RE (backslash # ls @ ds @ rest) Some =
           (case rest of
              [] \<Rightarrow> Some []
            | c # r \<Rightarrow> if c = backslash then Some r
                       else if isSpace c \<or> isAlpha c then Some rest else None)"
proof -
  have o: "rmatch orphanDelimiter (backslash # ls @ ds @ rest) Some = None"
    by (simp add: orphanDelimiter_def backslash_def)
  show ?thesis
    using selfClosing_eval[OF assms] openAnchor_eval[OF assms] o
    by (auto simp: FORM_PLACEHOLDER_RE_def aheadOk_def split: list.splits)
qed

lemma replace_all_prefix:
  "(\<And>c t. c \<in> set pre \<Longrightarrow> rmatch re (c # t) Some = None)
     \<Longrightarrow> replace_all re (pre @ s) = pre @ replace_all re s"
  by (induction pre) auto

lemma form_plain: "c \<noteq> backslash \<Longrightarrow> c \<noteq> 32 \<Longrightarrow> rmatch FORM_PLACEHOLDER_RE (c # t) Some = None"
  by (simp add: FORM_PLACEHOLDER_RE_def selfClosingAnchor_def openAnchor_def orphanDelimiter_def)

lemma trailing_plain: "c \<noteq> backslash \<Longrightarrow> rmatch TRAILING_BACKSLASH_RE (c # t) Some = None"
  by (simp add: TRAILING_BACKSLASH_RE_def)

lemma trailing_before_anchor:
  "isAnchorChar c \<Longrightarrow> rmatch TRAILING_BACKSLASH_RE (backslash # c # t) Some = None"
  using anchor_char_plain[of c] by (simp add: TRAILING_BACKSLASH_RE_def)

lemma anchor_kept_by_trailing:
  assumes "ls \<noteq> []" "list_all isAnchorChar ls" "list_all isDigit ds"
  shows "replace_all TRAILING_BACKSLASH_RE (backslash # ls @ ds @ t)
           = backslash # ls @ ds @ replace_all TRAILING_BACKSLASH_RE t"
proof -
  from assms obtain c ls' where ls: "ls = c # ls'" "isAnchorChar c" by (cases ls) auto
  have "replace_all TRAILING_BACKSLASH_RE ((ls @ ds) @ t) = (ls @ ds) @ replace_all TRAILING_BACKSLASH_RE t"
  proof (rule replace_all_prefix)
    fix c t assume "c \<in> set (ls @ ds)"
    then have "c \<noteq> backslash" using assms(2,3) anchor_char_plain digit_plain
      by (auto simp: list_all_iff)
    then show "rmatch TRAILING_BACKSLASH_RE (c # t) Some = None" by (rule trailing_plain)
  qed
  then show ?thesis using ls trailing_before_anchor[of c] by simp
qed

lemma anchor_kept_by_form:
  assumes "ls \<noteq> []" "list_all isAnchorChar ls" "ds \<noteq> []" "list_all isDigit ds"
    "\<not> isDigit c" "\<not> isSpace c" "\<not> isAlpha c" "c \<noteq> backslash"
  shows "replace_all FORM_PLACEHOLDER_RE (backslash # ls @ ds @ c # r)
           = backslash # ls @ ds @ replace_all FORM_PLACEHOLDER_RE (c # r)"
proof -
  have "rmatch FORM_PLACEHOLDER_RE (backslash # ls @ ds @ c # r) Some = None"
    using form_eval[OF assms(1-4), of "c # r"] assms(5-8) by simp
  then have a: "replace_all FORM_PLACEHOLDER_RE (backslash # ls @ ds @ c # r)
       = backslash # replace_all FORM_PLACEHOLDER_RE ((ls @ ds) @ c # r)" by simp
  have "replace_all FORM_PLACEHOLDER_RE ((ls @ ds) @ c # r)
       = (ls @ ds) @ replace_all FORM_PLACEHOLDER_RE (c # r)"
  proof (rule replace_all_prefix)
    fix c t assume "c \<in> set (ls @ ds)"
    then have "c \<noteq> backslash \<and> c \<noteq> 32" using assms(2,4) anchor_char_plain digit_plain
      by (auto simp: list_all_iff)
    then show "rmatch FORM_PLACEHOLDER_RE (c # t) Some = None" using form_plain by simp
  qed
  with a show ?thesis by simp
qed

lemma strip_examples:
  "stripFormPlaceholderText (backslash # js ''date14/1/2025'') = backslash # js ''date14/1/2025''"
  "stripFormPlaceholderText (backslash # js ''date1 4/1/2025'') = js '' 4/1/2025''"
  by (simp_all add: js_def stripFormPlaceholderText_def FORM_PLACEHOLDER_RE_def
      TRAILING_BACKSLASH_RE_def selfClosingAnchor_def openAnchor_def orphanDelimiter_def
      backslash_def isAlpha_def isAnchorChar_def isDigit_def isSpace_def)

text \<open>
  Claim C9.  The open-anchor alternative matches exactly a backslash, one or more letters or
  underscores and one or more digits that are followed by white space, a backslash, a letter
  or the end of the string, so never with a digit next.  \<open>stripFormPlaceholderText\<close>
  removes such an anchor before the end, white space or a letter, removes it together with a
  closing backslash, and keeps it before any other character; a digit after the anchor
  belongs to its digits.  \<^verbatim>\<open>\date14/1/2025\<close> is unchanged and
  \<^verbatim>\<open>\date1 4/1/2025\<close> becomes \<^verbatim>\<open> 4/1/2025\<close>.
\<close>

theorem open_anchor_stripping:
  "(rmatch openAnchor s Some = Some rest \<longleftrightarrow>
     (\<exists>ls ds. s = backslash # ls @ ds @ rest \<and> ls \<noteq> [] \<and> list_all isAnchorChar ls \<and>
        ds \<noteq> [] \<and> list_all isDigit ds \<and>
        (rest = [] \<or> isSpace (hd rest) \<or> hd rest = backslash \<or> isAlpha (hd rest)))) \<and>
   (ls \<noteq> [] \<and> list_all isAnchorChar ls \<and> ds \<noteq> [] \<and> list_all isDigit ds \<longrightarrow>
      (t = [] \<or> isSpace (hd t) \<or> isAlpha (hd t) \<longrightarrow>
         stripFormPlaceholderText (backslash # ls @ ds @ t) = stripFormPlaceholderText t) \<and>
      (stripFormPlaceholderText (backslash # ls @ ds @ backslash # t) = stripFormPlaceholderText t) \<and>
      (\<not> isDigit c \<and> \<not> isSpace c \<and> \<not> isAlpha c \<and> c \<noteq> backslash \<longrightarrow>
         stripFormPlaceholderText (backslash # ls @ ds @ c # t)
           = backslash # ls @ ds @ stripFormPlaceholderText (c # t))) \<and>
   stripFormPlaceholderText (backslash # js ''date14/1/2025'') = backslash # js ''date14/1/2025'' \<and>
   stripFormPlaceholderText (backslash # js ''date1 4/1/2025'') = js '' 4/1/2025''"
proof (intro conjI impI)
  show "rmatch openAnchor s Some = Some rest \<longleftrightarrow>
     (\<exists>ls ds. s = backslash # ls @ ds @ rest \<and> ls \<noteq> [] \<and> list_all isAnchorChar ls \<and>
        ds \<noteq> [] \<and> list_all isDigit ds \<and>
        (rest = [] \<or> isSpace (hd rest) \<or> hd rest = backslash \<or> isAlpha (hd rest)))"
    using openAnchor_match_iff[of s rest] by (simp add: aheadOk_def)
next
  assume a: "ls \<noteq> [] \<and> list_all isAnchorChar ls \<and> ds \<noteq> [] \<and> list_all isDigit ds"
    and t: "t = [] \<or> isSpace (hd t) \<or> isAlpha (hd t)"
  have nd: "t = [] \<or> \<not> isDigit (hd t)" using t digit_plain by auto
  have nb: "t = [] \<or> hd t \<noteq> backslash"
    using t anchor_char_plain[of "hd t"] digit_plain[of "hd t"]
    by (auto simp: isSpace_def backslash_def isAnchorChar_def)
  have "rmatch FORM_PLACEHOLDER_RE (backslash # ls @ ds @ t) Some = Some t"
    using form_eval[of ls ds t] a nd nb t by (cases t) auto
  then have "replace_all FORM_PLACEHOLDER_RE (backslash # ls @ ds @ t)
      = replace_all FORM_PLACEHOLDER_RE t" by simp
  then show "stripFormPlaceholderText (backslash # ls @ ds @ t) = stripFormPlaceholderText t"
    by (simp add: stripFormPlaceholderText_def)
next
  assume a: "ls \<noteq> [] \<and> list_all isAnchorChar ls \<and> ds \<noteq> [] \<and> list_all isDigit ds"
  have "\<not> isDigit backslash" by (simp add: isDigit_def backslash_def)
  then have "rmatch FORM_PLACEHOLDER_RE (backslash # ls @ ds @ backslash # t) Some = Some t"
    using form_eval[of ls ds "backslash # t"] a by simp
  then have "replace_all FORM_PLACEHOLDER_RE (backslash # ls @ ds @ backslash # t)
      = replace_all FORM_PLACEHOLDER_RE t" by simp
  then show "stripFormPlaceholderText (backslash # ls @ ds @ backslash # t) = stripFormPlaceholderText t"
    by (simp add: stripFormPlaceholderText_def)
next
  assume a: "ls \<noteq> [] \<and> list_all isAnchorChar ls \<and> ds \<noteq> [] \<and> list_all isDigit ds"
    and c: "\<not> isDigit c \<and> \<not> isSpace c \<and> \<not> isAlpha c \<and> c \<noteq> backslash"
  show "stripFormPlaceholderText (backslash # ls @ ds @ c # t)
           = backslash # ls @ ds @ stripFormPlaceholderText (c # t)"
    using a c anchor_kept_by_form[of ls ds c t]
      anchor_kept_by_trailing[of ls ds "replace_all FORM_PLACEHOLDER_RE (c # t)"]
    by (simp add: stripFormPlaceholderText_def del: replace_all.simps)
next
  show "stripFormPlaceholderText (backslash # js ''date14/1/2025'') = backslash # js ''date14/1/2025''"
    by (rule strip_examples(1))
  show "stripFormPlaceholderText (backslash # js ''date1 4/1/2025'') = js '' 4/1/2025''"
    by (rule strip_examples(2))
qed


theorem open_anchor_stripping_witness:
  "js ''date'' \<noteq> [] \<and> list_all isAnchorChar (js ''date'') \<and>
   js ''14'' \<noteq> [] \<and> list_all isDigit (js ''14'') \<and>
   isSpace (hd (js '' 4/1/2025'')) \<and>
   \<not> isDigit 47 \<and> \<not> isSpace 47 \<and> \<not> isAlpha 47 \<and> 47 \<noteq> backslash \<and>
   rmatch openAnchor (backslash # js ''date'' @ js ''14'' @ js '' 4'') Some = Some (js '' 4'') \<and>
   stripFormPlaceholderText (backslash # js ''date'' @ js ''14'' @ js '' 4/1/2025'')
     = stripFormPlaceholderText (js '' 4/1/2025'') \<and>
   stripFormPlaceholderText (backslash # js ''date'' @ js ''14'' @ 47 # js '' 4/1/2025'')
     = backslash # js ''date'' @ js ''14'' @ stripFormPlaceholderText (47 # js '' 4/1/2025'')"
proof -
  have h: "js ''date'' \<noteq> [] \<and> list_all isAnchorChar (js ''date'') \<and>
     js ''14'' \<noteq> [] \<and> list_all isDigit (js ''14'')"
    by (simp add: js_def isAnchorChar_def isAlpha_def isDigit_def)
  have t: "isSpace (hd (js '' 4/1/2025''))" "isSpace (hd (js '' 4''))"
    by (simp_all add: js_def isSpace_def)
  have c: "\<not> isDigit 47 \<and> \<not> isSpace 47 \<and> \<not> isAlpha 47 \<and> 47 \<noteq> backslash"
    by (simp add: isDigit_def isSpace_def isAlpha_def backslash_def)
  note inst = open_anchor_stripping[of "backslash # js ''date'' @ js ''14'' @ js '' 4''" "js '' 4''"
      "js ''date''" "js ''14''" "js '' 4/1/2025''" 47]
  have "\<exists>ls ds. backslash # js ''date'' @ js ''14'' @ js '' 4'' = backslash # ls @ ds @ js '' 4'' \<and>
      ls \<noteq> [] \<and> list_all isAnchorChar ls \<and> ds \<noteq> [] \<and> list_all isDigit ds \<and>
      (js '' 4'' = [] \<or> isSpace (hd (js '' 4'')) \<or> hd (js '' 4'') = backslash \<or> isAlpha (hd (js '' 4'')))"
    using h t(2) by blast
  with inst have m: "rmatch openAnchor (backslash # js ''date'' @ js ''14'' @ js '' 4'') Some = Some (js '' 4'')"
    by blast
  from inst h t(1) have a: "stripFormPlaceholderText (backslash # js ''date'' @ js ''14'' @ js '' 4/1/2025'')
     = stripFormPlaceholderText (js '' 4/1/2025'')" by blast
  from inst h c have b: "stripFormPlaceholderText (backslash # js ''date'' @ js ''14'' @ 47 # js '' 4/1/2025'')
     = backslash # js ''date'' @ js ''14'' @ stripFormPlaceholderText (47 # js '' 4/1/2025'')" by blast
  from h t(1) c m a b show ?thesis by blast
qed


section \<open>Line clustering\<close>

lemma lineStarts_snoc:
  "set (lineStarts (ls @ [l])) = set (lineStarts ls) \<union> {length (concat ls)}"
  by (induction ls) (auto simp: image_Un)

lemma clusterLines_concat:
  "concat (clusterLines lines cur ts) = concat lines @ cur @ ts"
  by (induction ts arbitrary: lines cur) (auto simp: Let_def)

lemma clusterLines_nonempty:
  "[] \<notin> set lines \<Longrightarrow> cur \<noteq> [] \<Longrightarrow> [] \<notin> set (clusterLines lines cur ts)"
  by (induction ts arbitrary: lines cur) (auto simp: Let_def)

lemma clusterLines_starts:
  "cur \<noteq> [] \<Longrightarrow>
   set (lineStarts (clusterLines lines cur ts)) =
     set (lineStarts (lines @ [cur])) \<union>
     {k. length (concat lines @ cur) \<le> k \<and> k < length (concat lines @ cur @ ts) \<and>
         newLineAfter ((concat lines @ cur @ ts) ! (k - 1)) ((concat lines @ cur @ ts) ! k)}"
proof (induction ts arbitrary: lines cur)
  case Nil
  then show ?case by auto
next
  case (Cons t ts)
  let ?n = "length (concat lines @ cur)"
  let ?P = "concat lines @ cur @ t # ts"
  from Cons.prems obtain b l where bl: "cur = b @ [l]"
    by (cases cur rule: rev_cases) auto
  have "?P = (concat lines @ b) @ l # t # ts" "?n - 1 = length (concat lines @ b)"
    by (simp_all add: bl)
  then have "?P ! (?n - 1) = l"
    by (metis nth_append_length)
  then have prev: "?P ! (?n - 1) = last cur" by (simp add: bl)
  have cur: "?P ! ?n = t" by (simp add: nth_append)
  have brk: "newLineAfter (?P ! (?n - 1)) (?P ! ?n) \<longleftrightarrow> newLineAfter (last cur) t"
    using prev cur by simp
  have split: "{k. ?n \<le> k \<and> k < length ?P \<and> newLineAfter (?P ! (k - 1)) (?P ! k)} =
     (if newLineAfter (last cur) t then {?n} else {}) \<union>
     {k. Suc ?n \<le> k \<and> k < length ?P \<and> newLineAfter (?P ! (k - 1)) (?P ! k)}"
    using brk by (auto simp: le_Suc_eq Suc_le_eq dest: le_neq_implies_less)
  show ?case
  proof (cases "newLineAfter (last cur) t")
    case True
    then have "clusterLines lines cur (t # ts) = clusterLines (lines @ [cur]) [t] ts"
      by (simp add: newLineAfter_def Let_def)
    moreover have "set (lineStarts (clusterLines (lines @ [cur]) [t] ts)) =
       set (lineStarts ((lines @ [cur]) @ [[t]])) \<union>
       {k. length (concat (lines @ [cur]) @ [t]) \<le> k \<and> k < length (concat (lines @ [cur]) @ [t] @ ts) \<and>
         newLineAfter ((concat (lines @ [cur]) @ [t] @ ts) ! (k - 1)) ((concat (lines @ [cur]) @ [t] @ ts) ! k)}"
      by (rule Cons.IH) simp
    ultimately show ?thesis
      using True split lineStarts_snoc[of "lines @ [cur]" "[t]"] by auto
  next
    case False
    then have "clusterLines lines cur (t # ts) = clusterLines lines (cur @ [t]) ts"
      by (simp add: newLineAfter_def Let_def)
    moreover have "set (lineStarts (clusterLines lines (cur @ [t]) ts)) =
       set (lineStarts (lines @ [cur @ [t]])) \<union>
       {k. length (concat lines @ cur @ [t]) \<le> k \<and> k < length (concat lines @ (cur @ [t]) @ ts) \<and>
         newLineAfter ((concat lines @ (cur @ [t]) @ ts) ! (k - 1)) ((concat lines @ (cur @ [t]) @ ts) ! k)}"
      by (rule Cons.IH) simp
    ultimately show ?thesis
      using False split lineStarts_snoc[of lines "cur @ [t]"] lineStarts_snoc[of lines cur] by auto
  qed
qed

lemma set_insort_cmp: "set (insort_cmp c a xs) = insert a (set xs)"
  by (induction xs) auto

lemma mset_insort_cmp: "mset (insort_cmp c a xs) = add_mset a (mset xs)"
  by (induction xs) auto

lemma mset_array_sort: "mset (array_sort c xs) = mset xs"
  by (induction xs) (auto simp: array_sort_def mset_insort_cmp)

lemma yCompare_le: "yCompare a b \<le> 0 \<longleftrightarrow> item_y (entry_item b) \<le> item_y (entry_item a)"
  by (simp add: yCompare_def orElse_def)

lemma sorted_insort_y:
  "sorted_wrt (\<lambda>a b. item_y (entry_item b) \<le> item_y (entry_item a)) xs \<Longrightarrow>
   sorted_wrt (\<lambda>a b. item_y (entry_item b) \<le> item_y (entry_item a)) (insort_cmp yCompare a xs)"
  by (induction xs) (auto simp: yCompare_le set_insort_cmp)

lemma sorted_array_sort_y:
  "sorted_wrt (\<lambda>a b. item_y (entry_item b) \<le> item_y (entry_item a)) (array_sort yCompare xs)"
  by (induction xs) (auto simp: array_sort_def sorted_insort_y)

text \<open>
  Claim C6, amended.  The tagged items are sorted by y descending, and the clustering loop
  starts a new line at a fragment after the first exactly when the absolute y-difference
  from the fragment just before it in the sorted sequence exceeds half of that fragment's
  font size, where a font size that is not positive counts as 12.
\<close>

theorem cluster_line_starts:
  "sorted_wrt (\<lambda>a b. item_y (entry_item b) \<le> item_y (entry_item a))
      (array_sort yCompare (tagItems items)) \<and>
   (array_sort yCompare (tagItems items) = t0 # rest \<longrightarrow>
      sortedLines items = Some (map sortLine (clusterLines [] [t0] rest)) \<and>
      concat (clusterLines [] [t0] rest) = t0 # rest \<and>
      [] \<notin> set (clusterLines [] [t0] rest) \<and>
      (\<forall>k. 0 < k \<and> k < length (t0 # rest) \<longrightarrow>
         (k \<in> set (lineStarts (clusterLines [] [t0] rest)) \<longleftrightarrow>
          \<bar>item_y (entry_item ((t0 # rest) ! k)) - item_y (entry_item ((t0 # rest) ! (k - 1)))\<bar>
            > (if item_fontSize (entry_item ((t0 # rest) ! (k - 1))) > 0
               then item_fontSize (entry_item ((t0 # rest) ! (k - 1))) else 12) * 0.5)))"
proof (intro conjI impI allI)
  show "sorted_wrt (\<lambda>a b. item_y (entry_item b) \<le> item_y (entry_item a))
      (array_sort yCompare (tagItems items))" by (rule sorted_array_sort_y)
next
  assume "array_sort yCompare (tagItems items) = t0 # rest"
  then show "sortedLines items = Some (map sortLine (clusterLines [] [t0] rest))"
    by (simp add: sortedLines_def)
next
  show "concat (clusterLines [] [t0] rest) = t0 # rest" by (simp add: clusterLines_concat)
  show "[] \<notin> set (clusterLines [] [t0] rest)" by (rule clusterLines_nonempty) simp_all
next
  fix k assume k: "0 < k \<and> k < length (t0 # rest)"
  have "set (lineStarts (clusterLines [] [t0] rest)) = {0} \<union>
     {k. 1 \<le> k \<and> k < length (t0 # rest) \<and> newLineAfter ((t0 # rest) ! (k - 1)) ((t0 # rest) ! k)}"
    using clusterLines_starts[of "[t0]" "[]" rest] by simp
  with k show "k \<in> set (lineStarts (clusterLines [] [t0] rest)) \<longleftrightarrow>
          \<bar>item_y (entry_item ((t0 # rest) ! k)) - item_y (entry_item ((t0 # rest) ! (k - 1)))\<bar>
            > (if item_fontSize (entry_item ((t0 # rest) ! (k - 1))) > 0
               then item_fontSize (entry_item ((t0 # rest) ! (k - 1))) else 12) * 0.5"
    by (auto simp: newLineAfter_def)
qed


lemma ex_sorted:
  "array_sort yCompare (tagItems [makeItem ''a'' 0 100 8 0, makeItem ''b'' 0 95 8 0]) =
     [\<lparr>entry_item = makeItem ''a'' 0 100 8 0, entry_i = 0\<rparr>,
      \<lparr>entry_item = makeItem ''b'' 0 95 8 0, entry_i = 1\<rparr>]"
  by (simp add: array_sort_def tagItems_def yCompare_def orElse_def makeItem_def upt_rec)

text \<open>
  Claim C6 as stated, with the threshold \<open>max(prevFontSize, 12) * 0.5\<close>, fails: at font
  size 8 the fragments at y = 100 and y = 95 are put on two lines, and 5 does not exceed 6.
\<close>

theorem cluster_max_counterexample:
  "array_sort yCompare (tagItems [makeItem ''a'' 0 100 8 0, makeItem ''b'' 0 95 8 0]) =
     [\<lparr>entry_item = makeItem ''a'' 0 100 8 0, entry_i = 0\<rparr>,
      \<lparr>entry_item = makeItem ''b'' 0 95 8 0, entry_i = 1\<rparr>] \<and>
   1 \<in> set (lineStarts (clusterLines [] [\<lparr>entry_item = makeItem ''a'' 0 100 8 0, entry_i = 0\<rparr>]
                          [\<lparr>entry_item = makeItem ''b'' 0 95 8 0, entry_i = 1\<rparr>])) \<and>
   \<not> specNewLine \<lparr>entry_item = makeItem ''a'' 0 100 8 0, entry_i = 0\<rparr>
                  \<lparr>entry_item = makeItem ''b'' 0 95 8 0, entry_i = 1\<rparr>"
  using ex_sorted by (simp add: specNewLine_def makeItem_def Let_def)

theorem cluster_line_starts_witness:
  "array_sort yCompare (tagItems [makeItem ''a'' 0 100 8 0, makeItem ''b'' 0 95 8 0]) =
     [\<lparr>entry_item = makeItem ''a'' 0 100 8 0, entry_i = 0\<rparr>,
      \<lparr>entry_item = makeItem ''b'' 0 95 8 0, entry_i = 1\<rparr>] \<and>
   (0::nat) < 1 \<and> 1 < length [\<lparr>entry_item = makeItem ''a'' 0 100 8 0, entry_i = 0\<rparr>,
                                \<lparr>entry_item = makeItem ''b'' 0 95 8 0, entry_i = 1\<rparr>] \<and>
   [] \<notin> set (clusterLines [] [\<lparr>entry_item = makeItem ''a'' 0 100 8 0, entry_i = 0\<rparr>]
                          [\<lparr>entry_item = makeItem ''b'' 0 95 8 0, entry_i = 1\<rparr>]) \<and>
   1 \<in> set (lineStarts (clusterLines [] [\<lparr>entry_item = makeItem ''a'' 0 100 8 0, entry_i = 0\<rparr>]
                          [\<lparr>entry_item = makeItem ''b'' 0 95 8 0, entry_i = 1\<rparr>])) \<and>
   \<bar>item_y (makeItem ''b'' 0 95 8 0) - item_y (makeItem ''a'' 0 100 8 0)\<bar>
      > item_fontSize (makeItem ''a'' 0 100 8 0) * 0.5"
proof -
  note inst = cluster_line_starts[of "[makeItem ''a'' 0 100 8 0, makeItem ''b'' 0 95 8 0]"
      "\<lparr>entry_item = makeItem ''a'' 0 100 8 0, entry_i = 0\<rparr>"
      "[\<lparr>entry_item = makeItem ''b'' 0 95 8 0, entry_i = 1\<rparr>]"]
  have y: "\<bar>item_y (makeItem ''b'' 0 95 8 0) - item_y (makeItem ''a'' 0 100 8 0)\<bar>
      > item_fontSize (makeItem ''a'' 0 100 8 0) * 0.5" "item_fontSize (makeItem ''a'' 0 100 8 0) > 0"
    by (simp_all add: makeItem_def)
  from inst ex_sorted
  have ne: "[] \<notin> set (clusterLines [] [\<lparr>entry_item = makeItem ''a'' 0 100 8 0, entry_i = 0\<rparr>]
                          [\<lparr>entry_item = makeItem ''b'' 0 95 8 0, entry_i = 1\<rparr>])"
    by blast
  from inst ex_sorted
  have "\<forall>k. 0 < k \<and> k < length [\<lparr>entry_item = makeItem ''a'' 0 100 8 0, entry_i = 0\<rparr>,
                                \<lparr>entry_item = makeItem ''b'' 0 95 8 0, entry_i = 1\<rparr>] \<longrightarrow>
         (k \<in> set (lineStarts (clusterLines [] [\<lparr>entry_item = makeItem ''a'' 0 100 8 0, entry_i = 0\<rparr>]
                          [\<lparr>entry_item = makeItem ''b'' 0 95 8 0, entry_i = 1\<rparr>])) \<longleftrightarrow>
          \<bar>item_y (entry_item (([\<lparr>entry_item = makeItem ''a'' 0 100 8 0, entry_i = 0\<rparr>,
                                \<lparr>entry_item = makeItem ''b'' 0 95 8 0, entry_i = 1\<rparr>]) ! k))
            - item_y (entry_item (([\<lparr>entry_item = makeItem ''a'' 0 100 8 0, entry_i = 0\<rparr>,
                                \<lparr>entry_item = makeItem ''b'' 0 95 8 0, entry_i = 1\<rparr>]) ! (k - 1)))\<bar>
            > (if item_fontSize (entry_item (([\<lparr>entry_item = makeItem ''a'' 0 100 8 0, entry_i = 0\<rparr>,
                                \<lparr>entry_item = makeItem ''b'' 0 95 8 0, entry_i = 1\<rparr>]) ! (k - 1))) > 0
               then item_fontSize (entry_item (([\<lparr>entry_item = makeItem ''a'' 0 100 8 0, entry_i = 0\<rparr>,
                                \<lparr>entry_item = makeItem ''b'' 0 95 8 0, entry_i = 1\<rparr>]) ! (k - 1))) else 12) * 0.5)"
    by blast
  from this[rule_format, of 1] y
  have st: "1 \<in> set (lineStarts (clusterLines [] [\<lparr>entry_item = makeItem ''a'' 0 100 8 0, entry_i = 0\<rparr>]
                          [\<lparr>entry_item = makeItem ''b'' 0 95 8 0, entry_i = 1\<rparr>]))"
    by simp
  from ex_sorted ne st y show ?thesis by simp
qed


section \<open>Column detection\<close>

lemma gapCount_same [simp]: "gapCount gaps a a = 0"
  by (simp add: gapCount_def)

lemma gapCount_step:
  "a < b \<Longrightarrow> gapCount gaps a b = (if gaps ! a \<noteq> None then 1 else 0) + gapCount gaps (Suc a) b"
  by (simp add: gapCount_def upt_conv_Cons)

lemma gapCount_split:
  "a \<le> b \<Longrightarrow> b \<le> c \<Longrightarrow> gapCount gaps a c = gapCount gaps a b + gapCount gaps b c"
proof -
  assume "a \<le> b" "b \<le> c"
  then have "[a..<c] = [a..<b] @ [b..<c]"
    by (metis le_Suc_ex upt_add_eq_append)
  then show ?thesis by (simp add: gapCount_def)
qed

lemma growRegion_count:
  "growRegion lines gaps tolerance sumRX cnt gaplessRun j = Some (sumRX', cnt', j')
     \<Longrightarrow> cnt' = cnt + gapCount gaps j j'"
proof (induction lines gaps tolerance sumRX cnt gaplessRun j rule: growRegion.induct)
  case (1 lines gaps tolerance sumRX cnt gaplessRun j)
  note eq = growRegion.simps[of lines gaps tolerance sumRX cnt gaplessRun j]
  show ?case
  proof (cases "j < length gaps")
    case False
    with "1.prems" show ?thesis by (simp add: eq)
  next
    case True
    show ?thesis
    proof (cases "gaps ! j")
      case (Some g)
      show ?thesis
      proof (cases "\<bar>gap_rightX g - sumRX / of_nat cnt\<bar> > tolerance")
        case stop: True
        with True Some "1.prems" show ?thesis by (simp add: eq)
      next
        case False
        with True Some "1.prems"
        have rec: "growRegion lines gaps tolerance (sumRX + gap_rightX g) (cnt + 1) 0 (j + 1)
                     = Some (sumRX', cnt', j')"
          by (simp add: eq)
        from "1.IH"(2)[OF True Some False rec] have "cnt' = cnt + 1 + gapCount gaps (j + 1) j'" .
        moreover from growRegion_index[OF rec] have "j < j'" by simp
        ultimately show ?thesis using Some by (simp add: gapCount_step)
      qed
    next
      case None
      show ?thesis
      proof (cases "j' = j")
        case same: True
        with True None "1.prems" show ?thesis
          by (auto simp: eq split: if_splits option.splits dest!: growRegion_index)
      next
        case False
        with True None "1.prems" obtain cur prv where
          c: "\<not> gaplessRun \<ge> MAX_GAPLESS_BRIDGE" "first_entry (lines ! j) = Some cur"
             "first_entry (lines ! (j - 1)) = Some prv"
             "\<not> \<bar>item_y (entry_item cur) - item_y (entry_item prv)\<bar>
                    > orElse (item_fontSize (entry_item prv)) 12 * 2.5"
             "\<not> \<not> lineIsOneSide (lines ! j) (sumRX / of_nat cnt)"
          and rec: "growRegion lines gaps tolerance sumRX cnt (gaplessRun + 1) (j + 1)
                     = Some (sumRX', cnt', j')"
          by (auto simp: eq split: if_splits option.splits)
        from "1.IH"(1)[OF True None c rec] have "cnt' = cnt + gapCount gaps (j + 1) j'" .
        moreover from growRegion_index[OF rec] have "j < j'" by simp
        ultimately show ?thesis using None by (simp add: gapCount_step)
      qed
    qed
  qed
qed

lemma growRegion_total:
  "length gaps = length lines \<Longrightarrow> [] \<notin> set lines \<Longrightarrow> 0 < j
     \<Longrightarrow> growRegion lines gaps tolerance sumRX cnt gaplessRun j \<noteq> None"
proof (induction lines gaps tolerance sumRX cnt gaplessRun j rule: growRegion.induct)
  case (1 lines gaps tolerance sumRX cnt gaplessRun j)
  note eq = growRegion.simps[of lines gaps tolerance sumRX cnt gaplessRun j]
  show ?case
  proof (cases "j < length gaps")
    case False
    then show ?thesis by (simp add: eq)
  next
    case True
    then have ne: "lines ! j \<noteq> []" "lines ! (j - 1) \<noteq> []"
      using "1.prems" by (auto simp: in_set_conv_nth)
    then obtain cur prv where fe: "first_entry (lines ! j) = Some cur"
      "first_entry (lines ! (j - 1)) = Some prv"
      by (cases "lines ! j"; cases "lines ! (j - 1)") (auto simp: first_entry_def)
    show ?thesis
    proof (cases "gaps ! j")
      case (Some g)
      with True "1.IH"(2)[OF True Some] "1.prems" show ?thesis
        by (auto simp: eq)
    next
      case None
      with True "1.IH"(1)[OF True None _ fe] "1.prems" fe show ?thesis
        by (auto simp: eq)
    qed
  qed
qed

lemma extendBack_bounds:
  "minStart \<le> start \<Longrightarrow>
     minStart \<le> extendBack lines gaps tolerance boundaryX minStart start backGapless \<and>
     extendBack lines gaps tolerance boundaryX minStart start backGapless \<le> start"
proof (induction lines gaps tolerance boundaryX minStart start backGapless rule: extendBack.induct)
  case (1 lines gaps tolerance boundaryX minStart start backGapless)
  note eq = extendBack.simps[of lines gaps tolerance boundaryX minStart start backGapless]
  show ?case
  proof (cases "minStart < start")
    case False
    then have "extendBack lines gaps tolerance boundaryX minStart start backGapless = start"
      by (subst eq) simp
    with "1.prems" show ?thesis by simp
  next
    case True
    then have le: "minStart \<le> start - 1" by simp
    show ?thesis
    proof (cases "gaps ! (start - 1)")
      case (Some g)
      show ?thesis
      proof (cases "\<bar>gap_rightX g - boundaryX\<bar> > tolerance")
        case stop: True
        with True Some "1.prems" show ?thesis by (subst eq, subst eq) simp
      next
        case False
        from "1.IH"(2)[OF True Some False le] True Some False show ?thesis
          by (subst eq, subst eq) auto
      qed
    next
      case None
      show ?thesis
      proof (cases "backGapless \<ge> MAX_GAPLESS_BRIDGE \<or> \<not> lineIsOneSide (lines ! (start - 1)) boundaryX")
        case stop: True
        with True None "1.prems" show ?thesis by (subst eq, subst eq) auto
      next
        case False
        then have c: "\<not> backGapless \<ge> MAX_GAPLESS_BRIDGE"
          "\<not> \<not> lineIsOneSide (lines ! (start - 1)) boundaryX" by auto
        from "1.IH"(1)[OF True None c le] True None c show ?thesis
          by (subst eq, subst eq) auto
      qed
    qed
  qed
qed

lemma regions_ok_snoc:
  "regions_ok lo (rs @ [r]) hi \<longleftrightarrow>
     regions_ok lo rs (region_start r) \<and> region_start r \<le> region_end r \<and> region_end r \<le> hi"
  by (induction rs arbitrary: lo) auto

lemma regions_ok_mono: "regions_ok lo rs hi \<Longrightarrow> hi \<le> hi' \<Longrightarrow> regions_ok lo rs hi'"
  by (induction rs arbitrary: lo) auto

lemma regions_ok_le: "regions_ok lo rs hi \<Longrightarrow> lo \<le> hi"
  by (induction rs arbitrary: lo) fastforce+

lemma regions_ok_last:
  "regions_ok lo rs hi \<Longrightarrow> rs \<noteq> [] \<Longrightarrow>
     regions_ok lo rs (region_end (last rs)) \<and> region_end (last rs) \<le> hi"
proof (induction rs arbitrary: lo)
  case Nil
  then show ?case by simp
next
  case (Cons r rs)
  then show ?case by (cases rs) auto
qed

lemma regions_ok_minStart:
  "regions_ok 0 rs hi \<Longrightarrow>
     regions_ok 0 rs (if rs \<noteq> [] then region_end (last rs) else 0) \<and>
     (if rs \<noteq> [] then region_end (last rs) else 0) \<le> hi"
  using regions_ok_last[of 0 rs hi] by auto

lemma detectLoop_inv:
  "detectLoop lines gaps i regions = Some rs \<Longrightarrow> i \<le> length gaps \<Longrightarrow> regions_ok 0 regions i \<Longrightarrow>
   (\<forall>r\<in>set regions. MIN_COLUMN_RUN \<le> gapCount gaps (region_start r) (region_end r)) \<Longrightarrow>
   regions_ok 0 rs (length gaps) \<and>
   (\<forall>r\<in>set rs. MIN_COLUMN_RUN \<le> gapCount gaps (region_start r) (region_end r))"
proof (induction lines gaps i regions rule: detectLoop.induct)
  case (1 lines gaps i regions)
  note eq = detectLoop.simps[of lines gaps i regions]
  show ?case
  proof (cases "i < length gaps")
    case False
    with "1.prems" show ?thesis by (simp add: eq)
  next
    case True
    show ?thesis
    proof (cases "gaps ! i")
      case None
      with True "1.prems"(1) have rec: "detectLoop lines gaps (i + 1) regions = Some rs"
        by (simp add: eq)
      show ?thesis
        by (rule "1.IH"(1)[OF True None rec])
           (use True "1.prems" regions_ok_mono[of 0 regions i "i + 1"] in auto)
    next
      case (Some anchor)
      from True Some "1.prems"(1) obtain sumRX cnt j where
        grow: "growRegion lines gaps (gap_fontSize anchor * 3) (gap_rightX anchor) 1 0 (i + 1)
                 = Some (sumRX, cnt, j)"
        by (auto simp: eq split: option.splits)
      from growRegion_index[OF grow] True have ij: "i < j" "j \<le> length gaps" by auto
      from growRegion_count[OF grow] have cnt: "cnt = 1 + gapCount gaps (i + 1) j" .
      show ?thesis
      proof (cases "cnt \<ge> MIN_COLUMN_RUN")
        case False
        with True Some grow "1.prems"(1) have rec: "detectLoop lines gaps (i + 1) regions = Some rs"
          by (simp add: eq)
        show ?thesis
          by (rule "1.IH"(3)[OF True Some grow refl refl False rec])
             (use True "1.prems" regions_ok_mono[of 0 regions i "i + 1"] in auto)
      next
        case ge: True
        define tolerance where "tolerance = gap_fontSize anchor * 3"
        define boundaryX where "boundaryX = sumRX / of_nat cnt"
        define minStart where "minStart = (if regions \<noteq> [] then region_end (last regions) else 0)"
        define start where "start = extendBack lines gaps tolerance boundaryX minStart i 0"
        define r where "r = \<lparr>region_start = start, region_end = j, region_boundaryX = boundaryX\<rparr>"
        from True Some grow ge "1.prems"(1)
        have rec: "detectLoop lines gaps j (regions @ [r]) = Some rs"
          by (simp add: eq Let_def r_def start_def minStart_def boundaryX_def tolerance_def)
        from regions_ok_minStart[OF "1.prems"(3)]
        have ms: "regions_ok 0 regions minStart" "minStart \<le> i"
          by (simp_all add: minStart_def)
        from extendBack_bounds[OF ms(2), of lines gaps tolerance boundaryX 0]
        have st: "minStart \<le> start" "start \<le> i" by (simp_all add: start_def)
        have ok: "regions_ok 0 (regions @ [r]) j"
          using ms(1) st ij regions_ok_mono[of 0 regions minStart start]
          by (simp add: regions_ok_snoc r_def)
        have "gapCount gaps start j = gapCount gaps start i + gapCount gaps i j"
          using st ij by (intro gapCount_split) auto
        moreover have "gapCount gaps i j = cnt"
          using ij Some cnt by (simp add: gapCount_step)
        ultimately have gc: "MIN_COLUMN_RUN \<le> gapCount gaps (region_start r) (region_end r)"
          using ge by (simp add: r_def)
        show ?thesis
          by (rule "1.IH"(2)[OF True Some grow refl refl ge tolerance_def boundaryX_def minStart_def
                start_def, folded r_def, OF rec])
             (use ij ok gc "1.prems"(4) in auto)
      qed
    qed
  qed
qed

lemma detectLoop_total:
  "length gaps = length lines \<Longrightarrow> [] \<notin> set lines \<Longrightarrow> detectLoop lines gaps i regions \<noteq> None"
proof (induction lines gaps i regions rule: detectLoop.induct)
  case (1 lines gaps i regions)
  note eq = detectLoop.simps[of lines gaps i regions]
  show ?case
  proof (cases "i < length gaps")
    case False
    then show ?thesis by (simp add: eq)
  next
    case True
    show ?thesis
    proof (cases "gaps ! i")
      case None
      with True "1.IH"(1)[OF True None "1.prems"] show ?thesis by (simp add: eq)
    next
      case (Some anchor)
      from growRegion_total[OF "1.prems", of "i + 1" "gap_fontSize anchor * 3" "gap_rightX anchor" 1 0]
      obtain sumRX cnt j where
        grow: "growRegion lines gaps (gap_fontSize anchor * 3) (gap_rightX anchor) 1 0 (i + 1)
                 = Some (sumRX, cnt, j)"
        by auto
      show ?thesis
      proof (cases "cnt \<ge> MIN_COLUMN_RUN")
        case False
        with True Some grow "1.IH"(3)[OF True Some grow refl refl False "1.prems"] show ?thesis
          by (simp add: eq)
      next
        case ge: True
        with True Some grow "1.IH"(2)[OF True Some grow refl refl ge refl refl refl refl "1.prems"]
        show ?thesis by (simp add: eq Let_def)
      qed
    qed
  qed
qed


lemma gapCount_lines:
  "b \<le> length lines \<Longrightarrow>
     gapCount (map findDominantColumnGap lines) a b = qualifyingGapLines lines a b"
proof -
  assume "b \<le> length lines"
  then have "filter (\<lambda>k. map findDominantColumnGap lines ! k \<noteq> None) [a..<b]
      = filter (\<lambda>k. findDominantColumnGap (lines ! k) \<noteq> None) [a..<b]"
    by (intro filter_cong) auto
  then show ?thesis by (simp add: gapCount_def qualifyingGapLines_def)
qed

lemma qualifyingGapLines_all:
  "qualifyingGapLines lines 0 (length lines)
     = length (filter (\<lambda>l. findDominantColumnGap l \<noteq> None) lines)"
proof -
  have "map (\<lambda>k. lines ! k) [0..<length lines] = lines" by (rule map_nth)
  then have "filter (\<lambda>l. findDominantColumnGap l \<noteq> None) lines
     = filter (\<lambda>l. findDominantColumnGap l \<noteq> None) (map (\<lambda>k. lines ! k) [0..<length lines])"
    by simp
  also have "\<dots> = map (\<lambda>k. lines ! k)
      (filter (\<lambda>k. findDominantColumnGap (lines ! k) \<noteq> None) [0..<length lines])"
    by (simp add: filter_map comp_def)
  finally show ?thesis by (simp add: qualifyingGapLines_def)
qed

lemma detectColumnRegions_wf:
  assumes "detectColumnRegions lines = Some regions"
  shows "regions_ok 0 regions (length lines)"
    and "\<forall>r\<in>set regions. region_end r \<le> length lines \<and>
           MIN_COLUMN_RUN \<le> qualifyingGapLines lines (region_start r) (region_end r)"
proof -
  from assms have d: "detectLoop lines (map findDominantColumnGap lines) 0 [] = Some regions"
    by (simp add: detectColumnRegions_def)
  from detectLoop_inv[OF d] have
    ok: "regions_ok 0 regions (length lines)" and
    gc: "\<forall>r\<in>set regions. MIN_COLUMN_RUN \<le>
           gapCount (map findDominantColumnGap lines) (region_start r) (region_end r)"
    by auto
  show "regions_ok 0 regions (length lines)" by (rule ok)
  have inb: "region_end r \<le> length lines" if "r \<in> set regions" for r
    using ok that
  proof (induction regions arbitrary: r rule: rev_induct)
    case Nil
    then show ?case by simp
  next
    case (snoc a rs)
    from snoc.prems(1) have "regions_ok 0 rs (region_start a)" "region_start a \<le> region_end a"
      "region_end a \<le> length lines"
      by (simp_all add: regions_ok_snoc)
    with snoc show ?case using regions_ok_mono[of 0 rs "region_start a" "length lines"] by auto
  qed
  show "\<forall>r\<in>set regions. region_end r \<le> length lines \<and>
           MIN_COLUMN_RUN \<le> qualifyingGapLines lines (region_start r) (region_end r)"
    using gc inb gapCount_lines by auto
qed

lemma detectColumnRegions_total:
  "[] \<notin> set lines \<Longrightarrow> \<exists>regions. detectColumnRegions lines = Some regions"
  using detectLoop_total[of "map findDominantColumnGap lines" lines 0 "[]"]
  by (auto simp: detectColumnRegions_def)

lemma qualifyingGapLines_part:
  assumes "a \<le> b" "b \<le> length lines"
  shows "qualifyingGapLines lines a b \<le> qualifyingGapLines lines 0 (length lines)"
proof -
  have "gapCount (map findDominantColumnGap lines) 0 (length lines)
      = gapCount (map findDominantColumnGap lines) 0 a
        + gapCount (map findDominantColumnGap lines) a (length lines)"
    using assms by (intro gapCount_split) auto
  also have "gapCount (map findDominantColumnGap lines) a (length lines)
      = gapCount (map findDominantColumnGap lines) a b
        + gapCount (map findDominantColumnGap lines) b (length lines)"
    using assms by (intro gapCount_split) auto
  finally show ?thesis using assms by (simp add: gapCount_lines[symmetric])
qed

lemma few_gap_lines_no_region:
  assumes "detectColumnRegions lines = Some regions"
    and "length (filter (\<lambda>l. findDominantColumnGap l \<noteq> None) lines) < MIN_COLUMN_RUN"
  shows "regions = []"
proof (rule ccontr)
  assume "regions \<noteq> []"
  then obtain r where r: "r \<in> set regions" by (cases regions) auto
  from detectColumnRegions_wf(2)[OF assms(1)] r
  have e: "region_end r \<le> length lines"
    and g: "MIN_COLUMN_RUN \<le> qualifyingGapLines lines (region_start r) (region_end r)" by auto
  have "region_start r \<le> region_end r"
  proof (rule ccontr)
    assume "\<not> region_start r \<le> region_end r"
    then have "qualifyingGapLines lines (region_start r) (region_end r) = 0"
      by (simp add: qualifyingGapLines_def)
    with g show False by (simp add: MIN_COLUMN_RUN_def)
  qed
  from qualifyingGapLines_part[OF this e] g assms(2) show False
    by (simp add: qualifyingGapLines_all)
qed

lemma length_insort_cmp: "length (insort_cmp c a xs) = Suc (length xs)"
  by (induction xs) auto

lemma length_array_sort: "length (array_sort c xs) = length xs"
  by (induction xs) (auto simp: array_sort_def length_insort_cmp)

lemma sortLine_nonempty: "sortLine line = [] \<longleftrightarrow> line = []"
  using length_array_sort[of "lineCompare (objMinX_of line)" line]
  by (auto simp: sortLine_def)

lemma sortedLines_nonempty: "sortedLines items = Some lines \<Longrightarrow> [] \<notin> set lines"
proof -
  assume a: "sortedLines items = Some lines"
  then obtain t0 rest where l: "lines = map sortLine (clusterLines [] [t0] rest)"
    by (auto simp: sortedLines_def split: list.splits)
  have "[] \<notin> set (clusterLines [] [t0] rest)" by (rule clusterLines_nonempty) simp_all
  with l show ?thesis by (auto dest!: sym[of "[]"] simp: sortLine_nonempty)
qed

lemma ex_two_gap_lines:
  "sortTextItems [makeItem ''Left1'' 50 700 12 60, makeItem ''Right1'' 350 700 12 60,
                  makeItem ''Left2'' 50 685 12 60, makeItem ''Right2'' 350 685 12 60]
     = Some [makeItem ''Left1'' 50 700 12 60, makeItem ''Right1'' 350 700 12 60,
             makeItem ''Left2'' 50 685 12 60, makeItem ''Right2'' 350 685 12 60]"
  by code_simp

text \<open>
  Claim C5.  Every region that the detector accepts holds at least three lines with a
  qualifying gap (lines without one do not count), and lies within the lines.  When fewer
  than three lines have a qualifying gap there is no region, the lines are returned as they
  are, and \<open>sortTextItems\<close> gives the lines in row-first order; so for the two lines
  Left1 Right1 / Left2 Right2.
\<close>

theorem min_column_run:
  "(detectColumnRegions lines = Some regions \<longrightarrow>
      (\<forall>r\<in>set regions. region_end r \<le> length lines \<and>
          3 \<le> qualifyingGapLines lines (region_start r) (region_end r))) \<and>
   (length (filter (\<lambda>l. findDominantColumnGap l \<noteq> None) lines) < 3 \<longrightarrow>
      (detectColumnRegions lines = Some regions \<longrightarrow> regions = []) \<and>
      (reorderColumnRegions lines = Some out \<longrightarrow> out = lines) \<and>
      ([] \<notin> set lines \<longrightarrow> reorderColumnRegions lines = Some lines) \<and>
      (items \<noteq> [] \<and> sortedLines items = Some lines \<longrightarrow>
         sortTextItems items = Some (map entry_item (concat lines)))) \<and>
   sortTextItems [makeItem ''Left1'' 50 700 12 60, makeItem ''Right1'' 350 700 12 60,
                  makeItem ''Left2'' 50 685 12 60, makeItem ''Right2'' 350 685 12 60]
     = Some [makeItem ''Left1'' 50 700 12 60, makeItem ''Right1'' 350 700 12 60,
             makeItem ''Left2'' 50 685 12 60, makeItem ''Right2'' 350 685 12 60]"
proof (intro conjI impI)
  assume "detectColumnRegions lines = Some regions"
  from detectColumnRegions_wf(2)[OF this]
  show "\<forall>r\<in>set regions. region_end r \<le> length lines \<and>
          3 \<le> qualifyingGapLines lines (region_start r) (region_end r)"
    by (simp add: MIN_COLUMN_RUN_def)
next
  assume few: "length (filter (\<lambda>l. findDominantColumnGap l \<noteq> None) lines) < 3"
    and d: "detectColumnRegions lines = Some regions"
  then show "regions = []" using few_gap_lines_no_region[of lines regions]
    by (simp add: MIN_COLUMN_RUN_def)
next
  assume few: "length (filter (\<lambda>l. findDominantColumnGap l \<noteq> None) lines) < 3"
    and r: "reorderColumnRegions lines = Some out"
  then obtain regions where d: "detectColumnRegions lines = Some regions"
    by (auto simp: reorderColumnRegions_def split: option.splits)
  with few have "regions = []" using few_gap_lines_no_region[of lines regions]
    by (simp add: MIN_COLUMN_RUN_def)
  with d r show "out = lines" by (simp add: reorderColumnRegions_def)
next
  assume few: "length (filter (\<lambda>l. findDominantColumnGap l \<noteq> None) lines) < 3"
    and ne: "[] \<notin> set lines"
  from detectColumnRegions_total[OF ne] obtain regions where
    d: "detectColumnRegions lines = Some regions" by blast
  with few have "regions = []" using few_gap_lines_no_region[of lines regions]
    by (simp add: MIN_COLUMN_RUN_def)
  with d show "reorderColumnRegions lines = Some lines" by (simp add: reorderColumnRegions_def)
next
  assume few: "length (filter (\<lambda>l. findDominantColumnGap l \<noteq> None) lines) < 3"
    and s: "items \<noteq> [] \<and> sortedLines items = Some lines"
  from s sortedLines_nonempty have ne: "[] \<notin> set lines" by blast
  from detectColumnRegions_total[OF ne] obtain regions where
    d: "detectColumnRegions lines = Some regions" by blast
  with few have "regions = []" using few_gap_lines_no_region[of lines regions]
    by (simp add: MIN_COLUMN_RUN_def)
  with d have "reorderColumnRegions lines = Some lines" by (simp add: reorderColumnRegions_def)
  with s show "sortTextItems items = Some (map entry_item (concat lines))"
    by (simp add: sortTextItems_def)
next
  show "sortTextItems [makeItem ''Left1'' 50 700 12 60, makeItem ''Right1'' 350 700 12 60,
                  makeItem ''Left2'' 50 685 12 60, makeItem ''Right2'' 350 685 12 60]
     = Some [makeItem ''Left1'' 50 700 12 60, makeItem ''Right1'' 350 700 12 60,
             makeItem ''Left2'' 50 685 12 60, makeItem ''Right2'' 350 685 12 60]"
    by (rule ex_two_gap_lines)
qed


lemma ex_twoRowLines: "sortedLines twoRowItems = Some twoRowLines"
  by code_simp

lemma ex_twoRow_gaps:
  "length (filter (\<lambda>l. findDominantColumnGap l \<noteq> None) twoRowLines) = 2"
  by code_simp

lemma ex_threeRowLines: "sortedLines threeRowItems = Some threeRowLines"
  by code_simp

lemma ex_threeRow_regions:
  "detectColumnRegions threeRowLines
     = Some [\<lparr>region_start = 0, region_end = 3, region_boundaryX = 350\<rparr>]"
  by code_simp

theorem min_column_run_witness:
  "detectColumnRegions threeRowLines
     = Some [\<lparr>region_start = 0, region_end = 3, region_boundaryX = 350\<rparr>] \<and>
   3 \<le> qualifyingGapLines threeRowLines 0 3 \<and>
   length (filter (\<lambda>l. findDominantColumnGap l \<noteq> None) twoRowLines) < 3 \<and>
   [] \<notin> set twoRowLines \<and> twoRowItems \<noteq> [] \<and> sortedLines twoRowItems = Some twoRowLines \<and>
   detectColumnRegions twoRowLines = Some [] \<and>
   reorderColumnRegions twoRowLines = Some twoRowLines \<and>
   sortTextItems twoRowItems = Some (map entry_item (concat twoRowLines))"
proof -
  note a = min_column_run[of threeRowLines
      "[\<lparr>region_start = 0, region_end = 3, region_boundaryX = 350\<rparr>]" threeRowLines threeRowItems]
  note b = min_column_run[of twoRowLines "[]" twoRowLines twoRowItems]
  have g3: "3 \<le> qualifyingGapLines threeRowLines 0 3"
    using a ex_threeRow_regions by simp
  have few: "length (filter (\<lambda>l. findDominantColumnGap l \<noteq> None) twoRowLines) < 3"
    unfolding ex_twoRow_gaps by simp
  have ne: "[] \<notin> set twoRowLines" "twoRowItems \<noteq> []"
    by (simp_all add: twoRowLines_def twoRowItems_def)
  from b few ne(1) have r: "reorderColumnRegions twoRowLines = Some twoRowLines" by blast
  from b few ne(2) ex_twoRowLines
  have s: "sortTextItems twoRowItems = Some (map entry_item (concat twoRowLines))" by blast
  from r have "\<exists>regions. detectColumnRegions twoRowLines = Some regions"
    by (auto simp: reorderColumnRegions_def split: option.splits)
  then obtain regions where d: "detectColumnRegions twoRowLines = Some regions" by blast
  with min_column_run[of twoRowLines regions twoRowLines twoRowItems] few
  have "regions = []" by blast
  with d have d0: "detectColumnRegions twoRowLines = Some []" by simp
  from ex_threeRow_regions g3 few ne ex_twoRowLines d0 r s show ?thesis by blast
qed

section \<open>Column reordering\<close>

lemma splitEntries_foldl:
  "foldl (\<lambda>(l, r) entry. if item_x (entry_item entry) < splitX then (l @ [entry], r)
                           else (l, r @ [entry])) (l0, r0) line
     = (l0 @ filter (\<lambda>e. item_x (entry_item e) < splitX) line,
        r0 @ filter (\<lambda>e. \<not> item_x (entry_item e) < splitX) line)"
  by (induction line arbitrary: l0 r0) auto

lemma splitEntries_filter:
  "splitEntries splitX line
     = (filter (\<lambda>e. item_x (entry_item e) < splitX) line,
        filter (\<lambda>e. \<not> item_x (entry_item e) < splitX) line)"
  using splitEntries_foldl[of splitX "[]" "[]" line] by (simp add: splitEntries_def)

lemma regionStep_parts:
  "regionStep lines region (left, right) j =
     (left @ filter (\<lambda>l. l \<noteq> []) [leftPart region (lines ! j)],
      right @ filter (\<lambda>l. l \<noteq> []) [rightPart region (lines ! j)])"
  by (simp add: regionStep_def splitEntries_filter leftPart_def rightPart_def splitXOf_def Let_def)

lemma regionStep_foldl:
  "foldl (regionStep lines region) (left, right) ks =
     (left @ filter (\<lambda>l. l \<noteq> []) (map (leftPart region) (map (\<lambda>k. lines ! k) ks)),
      right @ filter (\<lambda>l. l \<noteq> []) (map (rightPart region) (map (\<lambda>k. lines ! k) ks)))"
proof (induction ks arbitrary: left right)
  case Nil
  then show ?case by simp
next
  case (Cons k ks)
  show ?case by (simp only: foldl_Cons regionStep_parts Cons.IH) simp
qed

lemma reorderStep_spec:
  "reorderStep lines (res0, lineIdx) region =
     (res0 @ linesFrom lines lineIdx (region_start region) @ columnFirst lines region,
      region_end region)"
  by (simp add: reorderStep_def regionStep_foldl columnFirst_def linesFrom_def Let_def)

lemma reorder_foldl_spec:
  "(case foldl (reorderStep lines) (res0, lineIdx) regions of
      (res, idx) \<Rightarrow> res @ map (\<lambda>k. lines ! k) [idx..<length lines])
     = res0 @ spec_reorder lines lineIdx regions"
proof (induction regions arbitrary: res0 lineIdx)
  case Nil
  then show ?case by (simp add: linesFrom_def)
next
  case (Cons r rs)
  show ?case by (simp only: foldl_Cons reorderStep_spec Cons.IH spec_reorder.simps) simp
qed

lemma linesFrom_all: "linesFrom lines 0 (length lines) = lines"
  by (simp add: linesFrom_def map_nth)

lemma linesFrom_take_drop:
  "a \<le> b \<Longrightarrow> b \<le> length lines \<Longrightarrow> linesFrom lines a b = take (b - a) (drop a lines)"
  by (rule nth_equalityI) (simp_all add: linesFrom_def)

lemma linesFrom_append:
  "a \<le> b \<Longrightarrow> b \<le> c \<Longrightarrow> linesFrom lines a c = linesFrom lines a b @ linesFrom lines b c"
proof -
  assume "a \<le> b" "b \<le> c"
  then have "[a..<c] = [a..<b] @ [b..<c]"
    by (metis le_Suc_ex upt_add_eq_append)
  then show ?thesis by (simp add: linesFrom_def)
qed

lemma reorderColumnRegions_spec:
  assumes "reorderColumnRegions lines = Some out"
  shows "\<exists>regions. detectColumnRegions lines = Some regions \<and>
           regions_ok 0 regions (length lines) \<and> out = spec_reorder lines 0 regions"
proof -
  from assms obtain regions where d: "detectColumnRegions lines = Some regions"
    by (auto simp: reorderColumnRegions_def split: option.splits)
  have "out = spec_reorder lines 0 regions"
  proof (cases "regions = []")
    case True
    with assms d show ?thesis by (simp add: reorderColumnRegions_def linesFrom_all)
  next
    case False
    with assms d reorder_foldl_spec[of lines "[]" 0 regions] show ?thesis
      by (simp add: reorderColumnRegions_def split: prod.splits)
  qed
  with d detectColumnRegions_wf(1)[OF d] show ?thesis by blast
qed

lemma concat_filter_nonempty: "concat (filter (\<lambda>l. l \<noteq> []) xs) = concat xs"
  by (induction xs) auto

lemma mset_left_right:
  "mset (concat (map (leftPart region) ls)) + mset (concat (map (rightPart region) ls))
     = mset (concat ls)"
proof (induction ls)
  case Nil
  then show ?case by simp
next
  case (Cons l ls)
  have lr: "mset (leftPart region l) + mset (rightPart region l) = mset l"
    by (simp add: leftPart_def rightPart_def)
  have "mset (concat (map (leftPart region) (l # ls))) + mset (concat (map (rightPart region) (l # ls)))
      = (mset (leftPart region l) + mset (rightPart region l)) +
        (mset (concat (map (leftPart region) ls)) + mset (concat (map (rightPart region) ls)))"
    by (simp add: ac_simps)
  also have "\<dots> = mset l + mset (concat ls)" by (simp only: lr Cons.IH)
  finally show ?case by simp
qed

lemma mset_columnFirst:
  "mset (concat (columnFirst lines region))
     = mset (concat (linesFrom lines (region_start region) (region_end region)))"
  by (simp add: columnFirst_def concat_filter_nonempty mset_left_right)

lemma mset_spec_reorder:
  "regions_ok pos regions (length lines) \<Longrightarrow>
     mset (concat (spec_reorder lines pos regions))
       = mset (concat (linesFrom lines pos (length lines)))"
proof (induction regions arbitrary: pos)
  case Nil
  then show ?case by simp
next
  case (Cons r rs)
  from Cons.prems have b: "pos \<le> region_start r" "region_start r \<le> region_end r"
    and ok: "regions_ok (region_end r) rs (length lines)" by simp_all
  from regions_ok_le[OF ok] have e: "region_end r \<le> length lines" .
  have "linesFrom lines pos (length lines)
      = linesFrom lines pos (region_start r) @ linesFrom lines (region_start r) (region_end r)
        @ linesFrom lines (region_end r) (length lines)"
    using b e linesFrom_append[of pos "region_start r" "length lines" lines]
      linesFrom_append[of "region_start r" "region_end r" "length lines" lines] by simp
  then show ?case using Cons.IH[OF ok] by (simp add: mset_columnFirst)
qed


lemma ex_signature_blocks:
  "sortTextItems signatureBlockItems =
     Some [makeItem ''Name:'' 50 700 12 60, makeItem ''Andrew Foley'' 120 700 12 60,
           makeItem ''Title:'' 50 685 12 60, makeItem ''GM'' 120 685 12 60,
           makeItem ''Date:'' 50 670 12 60, makeItem ''11/27/2023'' 120 670 12 60,
           makeItem ''Name:'' 350 700 12 60, makeItem ''Chris Smith'' 420 700 12 60,
           makeItem ''Title:'' 350 685 12 60, makeItem ''Director'' 420 685 12 60,
           makeItem ''Date:'' 350 670 12 60, makeItem ''11/27/2023'' 420 670 12 60]"
  by code_simp

lemma ex_threeRow_reorder:
  "reorderColumnRegions threeRowLines =
     Some [[tagged (makeItem ''L1'' 50 700 12 60) 0], [tagged (makeItem ''L2'' 50 685 12 60) 2],
           [tagged (makeItem ''L3'' 50 670 12 60) 4], [tagged (makeItem ''R1'' 350 700 12 60) 1],
           [tagged (makeItem ''R2'' 350 685 12 60) 3], [tagged (makeItem ''R3'' 350 670 12 60) 5]]"
  by code_simp

text \<open>
  Claim C4.  The result of \<open>reorderColumnRegions\<close> is the reordering of the specification
  for the regions that the detector returns, which lie in order and without overlap within
  the lines: the lines before, between and after the regions are passed through as they are,
  and a region gives the non-empty left parts of its lines from top to bottom and then the
  non-empty right parts, each line being split at the \<open>rightX\<close> of its own gap, or at the
  boundary of the region when it has no qualifying gap.  For the two side-by-side blocks of
  three rows the three lines of the left block come before the three lines of the right block.
\<close>

theorem column_first_reordering:
  "(reorderColumnRegions lines = Some out \<longrightarrow>
      (\<exists>regions. detectColumnRegions lines = Some regions \<and>
         regions_ok 0 regions (length lines) \<and> out = spec_reorder lines 0 regions)) \<and>
   (detectColumnRegions lines = Some [] \<longrightarrow> reorderColumnRegions lines = Some lines) \<and>
   (detectColumnRegions lines = Some [r] \<longrightarrow>
      reorderColumnRegions lines =
        Some (take (region_start r) lines @
              filter (\<lambda>l. l \<noteq> [])
                (map (leftPart r) (take (region_end r - region_start r) (drop (region_start r) lines))) @
              filter (\<lambda>l. l \<noteq> [])
                (map (rightPart r) (take (region_end r - region_start r) (drop (region_start r) lines))) @
              drop (region_end r) lines)) \<and>
   leftPart r line = filter (\<lambda>e. item_x (entry_item e) < splitXOf r line) line \<and>
   rightPart r line = filter (\<lambda>e. \<not> item_x (entry_item e) < splitXOf r line) line \<and>
   (findDominantColumnGap line = Some lineGap \<longrightarrow> splitXOf r line = gap_rightX lineGap) \<and>
   (findDominantColumnGap line = None \<longrightarrow> splitXOf r line = region_boundaryX r) \<and>
   sortTextItems signatureBlockItems =
     Some [makeItem ''Name:'' 50 700 12 60, makeItem ''Andrew Foley'' 120 700 12 60,
           makeItem ''Title:'' 50 685 12 60, makeItem ''GM'' 120 685 12 60,
           makeItem ''Date:'' 50 670 12 60, makeItem ''11/27/2023'' 120 670 12 60,
           makeItem ''Name:'' 350 700 12 60, makeItem ''Chris Smith'' 420 700 12 60,
           makeItem ''Title:'' 350 685 12 60, makeItem ''Director'' 420 685 12 60,
           makeItem ''Date:'' 350 670 12 60, makeItem ''11/27/2023'' 420 670 12 60]"
proof (intro conjI impI)
  assume "reorderColumnRegions lines = Some out"
  then show "\<exists>regions. detectColumnRegions lines = Some regions \<and>
         regions_ok 0 regions (length lines) \<and> out = spec_reorder lines 0 regions"
    by (rule reorderColumnRegions_spec)
next
  assume "detectColumnRegions lines = Some []"
  then show "reorderColumnRegions lines = Some lines" by (simp add: reorderColumnRegions_def)
next
  assume d: "detectColumnRegions lines = Some [r]"
  from detectColumnRegions_wf(1)[OF d]
  have b: "region_start r \<le> region_end r" "region_end r \<le> length lines" by simp_all
  have "reorderColumnRegions lines = Some (spec_reorder lines 0 [r])"
    using d reorder_foldl_spec[of lines "[]" 0 "[r]"]
    by (simp add: reorderColumnRegions_def split: prod.splits)
  moreover have "linesFrom lines 0 (region_start r) = take (region_start r) lines"
    using b linesFrom_take_drop[of 0 "region_start r" lines] by simp
  moreover have "linesFrom lines (region_start r) (region_end r)
      = take (region_end r - region_start r) (drop (region_start r) lines)"
    using b by (rule linesFrom_take_drop)
  moreover have "linesFrom lines (region_end r) (length lines) = drop (region_end r) lines"
    using b linesFrom_take_drop[of "region_end r" "length lines" lines] by simp
  ultimately show "reorderColumnRegions lines =
        Some (take (region_start r) lines @
              filter (\<lambda>l. l \<noteq> [])
                (map (leftPart r) (take (region_end r - region_start r) (drop (region_start r) lines))) @
              filter (\<lambda>l. l \<noteq> [])
                (map (rightPart r) (take (region_end r - region_start r) (drop (region_start r) lines))) @
              drop (region_end r) lines)"
    by (simp add: columnFirst_def)
next
  show "leftPart r line = filter (\<lambda>e. item_x (entry_item e) < splitXOf r line) line"
    by (simp add: leftPart_def)
  show "rightPart r line = filter (\<lambda>e. \<not> item_x (entry_item e) < splitXOf r line) line"
    by (simp add: rightPart_def)
next
  assume "findDominantColumnGap line = Some lineGap"
  then show "splitXOf r line = gap_rightX lineGap" by (simp add: splitXOf_def)
next
  assume "findDominantColumnGap line = None"
  then show "splitXOf r line = region_boundaryX r" by (simp add: splitXOf_def)
next
  show "sortTextItems signatureBlockItems =
     Some [makeItem ''Name:'' 50 700 12 60, makeItem ''Andrew Foley'' 120 700 12 60,
           makeItem ''Title:'' 50 685 12 60, makeItem ''GM'' 120 685 12 60,
           makeItem ''Date:'' 50 670 12 60, makeItem ''11/27/2023'' 120 670 12 60,
           makeItem ''Name:'' 350 700 12 60, makeItem ''Chris Smith'' 420 700 12 60,
           makeItem ''Title:'' 350 685 12 60, makeItem ''Director'' 420 685 12 60,
           makeItem ''Date:'' 350 670 12 60, makeItem ''11/27/2023'' 420 670 12 60]"
    by (rule ex_signature_blocks)
qed

lemma ex_threeRow_gap:
  "findDominantColumnGap [tagged (makeItem ''L1'' 50 700 12 60) 0, tagged (makeItem ''R1'' 350 700 12 60) 1]
     = Some \<lparr>gap_rightX = 350, gap_fontSize = 12\<rparr>"
  by code_simp

theorem column_first_reordering_witness:
  "detectColumnRegions threeRowLines
     = Some [\<lparr>region_start = 0, region_end = 3, region_boundaryX = 350\<rparr>] \<and>
   reorderColumnRegions threeRowLines =
     Some [[tagged (makeItem ''L1'' 50 700 12 60) 0], [tagged (makeItem ''L2'' 50 685 12 60) 2],
           [tagged (makeItem ''L3'' 50 670 12 60) 4], [tagged (makeItem ''R1'' 350 700 12 60) 1],
           [tagged (makeItem ''R2'' 350 685 12 60) 3], [tagged (makeItem ''R3'' 350 670 12 60) 5]] \<and>
   spec_reorder threeRowLines 0 [\<lparr>region_start = 0, region_end = 3, region_boundaryX = 350\<rparr>] =
     [[tagged (makeItem ''L1'' 50 700 12 60) 0], [tagged (makeItem ''L2'' 50 685 12 60) 2],
      [tagged (makeItem ''L3'' 50 670 12 60) 4], [tagged (makeItem ''R1'' 350 700 12 60) 1],
      [tagged (makeItem ''R2'' 350 685 12 60) 3], [tagged (makeItem ''R3'' 350 670 12 60) 5]] \<and>
   splitXOf \<lparr>region_start = 0, region_end = 3, region_boundaryX = 350\<rparr>
     [tagged (makeItem ''L1'' 50 700 12 60) 0, tagged (makeItem ''R1'' 350 700 12 60) 1] = 350"
proof -
  note inst = column_first_reordering[of threeRowLines
      "[[tagged (makeItem ''L1'' 50 700 12 60) 0], [tagged (makeItem ''L2'' 50 685 12 60) 2],
           [tagged (makeItem ''L3'' 50 670 12 60) 4], [tagged (makeItem ''R1'' 350 700 12 60) 1],
           [tagged (makeItem ''R2'' 350 685 12 60) 3], [tagged (makeItem ''R3'' 350 670 12 60) 5]]"
      "\<lparr>region_start = 0, region_end = 3, region_boundaryX = 350\<rparr>"
      "[tagged (makeItem ''L1'' 50 700 12 60) 0, tagged (makeItem ''R1'' 350 700 12 60) 1]"
      "\<lparr>gap_rightX = 350, gap_fontSize = 12\<rparr>"]
  from inst ex_threeRow_reorder obtain regions where
    d: "detectColumnRegions threeRowLines = Some regions" and
    o: "[[tagged (makeItem ''L1'' 50 700 12 60) 0], [tagged (makeItem ''L2'' 50 685 12 60) 2],
           [tagged (makeItem ''L3'' 50 670 12 60) 4], [tagged (makeItem ''R1'' 350 700 12 60) 1],
           [tagged (makeItem ''R2'' 350 685 12 60) 3], [tagged (makeItem ''R3'' 350 670 12 60) 5]]
        = spec_reorder threeRowLines 0 regions"
    by blast
  from d ex_threeRow_regions have r: "regions = [\<lparr>region_start = 0, region_end = 3, region_boundaryX = 350\<rparr>]"
    by simp
  from inst ex_threeRow_gap have sx: "splitXOf \<lparr>region_start = 0, region_end = 3, region_boundaryX = 350\<rparr>
     [tagged (makeItem ''L1'' 50 700 12 60) 0, tagged (makeItem ''R1'' 350 700 12 60) 1] = 350"
    by simp
  from ex_threeRow_regions ex_threeRow_reorder o r sx show ?thesis by simp
qed

section \<open>The sorted items are a permutation of the input\<close>

lemma entry_item_tagItems: "map entry_item (tagItems items) = items"
proof -
  have "map entry_item (tagItems items) = map fst (zip items [0..<length items])"
    by (simp add: tagItems_def split_def comp_def)
  also have "\<dots> = items" by (rule map_fst_zip) simp
  finally show ?thesis .
qed

lemma mset_concat_sortLine: "mset (concat (map sortLine ls)) = mset (concat ls)"
  by (induction ls) (simp_all add: sortLine_def mset_array_sort)

lemma sortedLines_mset:
  "items \<noteq> [] \<Longrightarrow> \<exists>lines. sortedLines items = Some lines \<and> mset (concat lines) = mset (tagItems items)"
proof -
  assume ne: "items \<noteq> []"
  have "length (array_sort yCompare (tagItems items)) = length items"
    by (simp add: length_array_sort tagItems_def)
  with ne obtain t0 rest where s: "array_sort yCompare (tagItems items) = t0 # rest"
    by (cases "array_sort yCompare (tagItems items)") auto
  then have "sortedLines items = Some (map sortLine (clusterLines [] [t0] rest))"
    by (simp add: sortedLines_def)
  moreover have "mset (concat (map sortLine (clusterLines [] [t0] rest))) = mset (tagItems items)"
    using s mset_array_sort[of yCompare "tagItems items"]
    by (simp add: mset_concat_sortLine clusterLines_concat)
  ultimately show ?thesis by blast
qed

lemma reorderColumnRegions_mset:
  "reorderColumnRegions lines = Some out \<Longrightarrow> mset (concat out) = mset (concat lines)"
proof -
  assume "reorderColumnRegions lines = Some out"
  from reorderColumnRegions_spec[OF this] obtain regions where
    ok: "regions_ok 0 regions (length lines)" and o: "out = spec_reorder lines 0 regions"
    by blast
  from mset_spec_reorder[OF ok] o show ?thesis by (simp add: linesFrom_all)
qed

lemma reorderColumnRegions_total:
  "[] \<notin> set lines \<Longrightarrow> \<exists>out. reorderColumnRegions lines = Some out"
  using detectColumnRegions_total[of lines]
  by (auto simp: reorderColumnRegions_def split: prod.splits)

lemma mset_concat_all2:
  "list_all2 (\<lambda>a b. mset a = mset b) xs ys \<Longrightarrow> mset (concat xs) = mset (concat ys)"
  by (induction rule: list_all2_induct) simp_all

lemma nonempty_all2:
  "list_all2 (\<lambda>a b. mset a = mset b) xs ys \<Longrightarrow> [] \<notin> set ys \<Longrightarrow> [] \<notin> set xs"
  by (induction rule: list_all2_induct) auto

text \<open>
  Claim C1.  \<open>sortTextItems\<close> returns, for every list of items, a list with the same items,
  each as often as in the input.  Column reordering keeps the entries of any lines it is given,
  so the same holds whichever order the entries have within the sorted lines.
\<close>

theorem sortTextItems_permutation:
  "(\<exists>out. sortTextItems items = Some out \<and> mset out = mset items \<and> length out = length items) \<and>
   (reorderColumnRegions lines = Some reordered \<longrightarrow>
      mset (concat reordered) = mset (concat lines)) \<and>
   (sortedLines items = Some sorted_lines \<and>
    list_all2 (\<lambda>a b. mset a = mset b) other_lines sorted_lines \<longrightarrow>
      (\<exists>out. reorderColumnRegions other_lines = Some out \<and>
         mset (map entry_item (concat out)) = mset items))"
proof (intro conjI impI)
  show "\<exists>out. sortTextItems items = Some out \<and> mset out = mset items \<and> length out = length items"
  proof (cases "items = []")
    case True
    then show ?thesis by (simp add: sortTextItems_def)
  next
    case False
    from sortedLines_mset[OF False] obtain lines where
      l: "sortedLines items = Some lines" "mset (concat lines) = mset (tagItems items)" by blast
    from reorderColumnRegions_total[OF sortedLines_nonempty[OF l(1)]] obtain out where
      o: "reorderColumnRegions lines = Some out" by blast
    have "mset (map entry_item (concat out)) = image_mset entry_item (mset (tagItems items))"
      using reorderColumnRegions_mset[OF o] l(2) by (metis mset_map)
    also have "\<dots> = mset items" using entry_item_tagItems[of items] by (metis mset_map)
    finally have m: "mset (map entry_item (concat out)) = mset items" .
    then have "length (map entry_item (concat out)) = length items" by (rule mset_eq_length)
    with m False l(1) o show ?thesis by (simp add: sortTextItems_def)
  qed
next
  assume "reorderColumnRegions lines = Some reordered"
  then show "mset (concat reordered) = mset (concat lines)" by (rule reorderColumnRegions_mset)
next
  assume a: "sortedLines items = Some sorted_lines \<and>
    list_all2 (\<lambda>a b. mset a = mset b) other_lines sorted_lines"
  then have ne: "[] \<notin> set other_lines" using nonempty_all2 sortedLines_nonempty by blast
  from reorderColumnRegions_total[OF ne] obtain out where
    o: "reorderColumnRegions other_lines = Some out" by blast
  have items: "items \<noteq> []"
  proof
    assume "items = []"
    then have "sortedLines items = None"
      by (simp add: sortedLines_def tagItems_def array_sort_def)
    with a show False by simp
  qed
  from sortedLines_mset[OF items] a have "mset (concat sorted_lines) = mset (tagItems items)" by auto
  with a mset_concat_all2[of other_lines sorted_lines] reorderColumnRegions_mset[OF o]
  have "mset (concat out) = mset (tagItems items)" by simp
  then have "mset (map entry_item (concat out)) = image_mset entry_item (mset (tagItems items))"
    by (metis mset_map)
  also have "\<dots> = mset items" using entry_item_tagItems[of items] by (metis mset_map)
  finally show "\<exists>out. reorderColumnRegions other_lines = Some out \<and>
         mset (map entry_item (concat out)) = mset items" using o by blast
qed

theorem sortTextItems_permutation_witness:
  "sortTextItems threeRowItems =
     Some [makeItem ''L1'' 50 700 12 60, makeItem ''L2'' 50 685 12 60, makeItem ''L3'' 50 670 12 60,
           makeItem ''R1'' 350 700 12 60, makeItem ''R2'' 350 685 12 60, makeItem ''R3'' 350 670 12 60] \<and>
   mset [makeItem ''L1'' 50 700 12 60, makeItem ''L2'' 50 685 12 60, makeItem ''L3'' 50 670 12 60,
         makeItem ''R1'' 350 700 12 60, makeItem ''R2'' 350 685 12 60, makeItem ''R3'' 350 670 12 60]
     = mset threeRowItems \<and>
   sortedLines threeRowItems = Some threeRowLines \<and>
   list_all2 (\<lambda>a b. mset a = mset b) (map rev threeRowLines) threeRowLines \<and>
   (\<exists>out. reorderColumnRegions (map rev threeRowLines) = Some out \<and>
      mset (map entry_item (concat out)) = mset threeRowItems)"
proof -
  have s: "sortTextItems threeRowItems =
     Some [makeItem ''L1'' 50 700 12 60, makeItem ''L2'' 50 685 12 60, makeItem ''L3'' 50 670 12 60,
           makeItem ''R1'' 350 700 12 60, makeItem ''R2'' 350 685 12 60, makeItem ''R3'' 350 670 12 60]"
    by code_simp
  note inst = sortTextItems_permutation[of threeRowItems threeRowLines
      "[[tagged (makeItem ''L1'' 50 700 12 60) 0], [tagged (makeItem ''L2'' 50 685 12 60) 2],
           [tagged (makeItem ''L3'' 50 670 12 60) 4], [tagged (makeItem ''R1'' 350 700 12 60) 1],
           [tagged (makeItem ''R2'' 350 685 12 60) 3], [tagged (makeItem ''R3'' 350 670 12 60) 5]]"
      threeRowLines "map rev threeRowLines"]
  have p: "list_all2 (\<lambda>a b. mset a = mset b) (map rev threeRowLines) threeRowLines"
    by (simp add: threeRowLines_def)
  from inst s have m: "mset [makeItem ''L1'' 50 700 12 60, makeItem ''L2'' 50 685 12 60,
         makeItem ''L3'' 50 670 12 60, makeItem ''R1'' 350 700 12 60, makeItem ''R2'' 350 685 12 60,
         makeItem ''R3'' 350 670 12 60] = mset threeRowItems"
    by auto
  from inst ex_threeRowLines p
  have e: "\<exists>out. reorderColumnRegions (map rev threeRowLines) = Some out \<and>
      mset (map entry_item (concat out)) = mset threeRowItems" by blast
  from s m ex_threeRowLines p e show ?thesis by blast
qed

section \<open>The structured sink\<close>

lemma sink_ok_pushLine: "sink_ok s \<Longrightarrow> sink_ok (pushLine b s)"
  by (auto simp: sink_ok_def pushLine_def textOfSpans_def)

lemma textOfSpans_last:
  "spans \<noteq> [] \<Longrightarrow>
     textOfSpans (butlast spans @ [sp]) = textOfSpans (butlast spans) @ span_text sp \<and>
     textOfSpans spans = textOfSpans (butlast spans) @ span_text (last spans)"
proof -
  assume "spans \<noteq> []"
  then have "spans = butlast spans @ [last spans]" by simp
  then have "textOfSpans spans = textOfSpans (butlast spans @ [last spans])" by simp
  then show ?thesis by (simp add: textOfSpans_def)
qed

lemma sink_ok_appendToSpans: "sink_ok s \<Longrightarrow> sink_ok (appendToSpans rawText fontName link s)"
proof -
  assume ok: "sink_ok s"
  obtain bold italic where st: "detectFontStyle fontName = (bold, italic)"
    by (cases "detectFontStyle fontName")
  show ?thesis
  proof (cases "currentSpans s \<noteq> [] \<and> span_bold (last (currentSpans s)) = bold \<and>
      span_italic (last (currentSpans s)) = italic \<and> span_link (last (currentSpans s)) = link")
    case True
    then have ne: "currentSpans s \<noteq> []" by simp
    from True st ok textOfSpans_last[OF ne] show ?thesis
      by (simp add: appendToSpans_def sink_ok_def Let_def)
  next
    case False
    with st ok show ?thesis
      by (auto simp: appendToSpans_def sink_ok_def Let_def textOfSpans_def)
  qed
qed

lemma sink_ok_onSpace: "sink_ok s \<Longrightarrow> sink_ok (onSpace structuredVisitor s)"
proof (cases "currentSpans s \<noteq> []")
  case True
  assume ok: "sink_ok s"
  from textOfSpans_last[OF True, of "(last (currentSpans s))\<lparr>span_text := span_text (last (currentSpans s)) @ [32]\<rparr>"]
    ok True
  show ?thesis by (simp add: structuredVisitor_def sink_ok_def)
next
  case False
  assume "sink_ok s"
  with False show ?thesis by (simp add: structuredVisitor_def)
qed

lemma sink_ok_onItem: "sink_ok s \<Longrightarrow> sink_ok (onItem structuredVisitor item link s)"
proof -
  assume ok: "sink_ok s"
  define s1 where "s1 = (if currentText s = []
       then s\<lparr>currentFontSize := item_fontSize item, currentY := item_y item\<rparr> else s)"
  have "sink_ok s1" using ok by (simp add: s1_def sink_ok_def)
  then have "sink_ok (appendToSpans (item_text item) (item_fontName item) link s1)"
    by (rule sink_ok_appendToSpans)
  then show ?thesis
    by (simp add: structuredVisitor_def Let_def s1_def[symmetric] sink_ok_def)
qed

lemma sink_ok_onLineBreak: "sink_ok s \<Longrightarrow> sink_ok (onLineBreak structuredVisitor item b s)"
  by (simp add: structuredVisitor_def sink_ok_pushLine)

lemma sink_ok_onEnd: "sink_ok s \<Longrightarrow> sink_ok (onEnd structuredVisitor s)"
  by (simp add: structuredVisitor_def sink_ok_pushLine)

lemma sink_ok_walkStep:
  "sink_ok s \<Longrightarrow> sink_ok (snd (walkStep structuredVisitor links (st, s) item))"
  by (simp add: walkStep_def Let_def sink_ok_onItem sink_ok_onLineBreak sink_ok_onSpace)

lemma sink_ok_foldl:
  "sink_ok s \<Longrightarrow> sink_ok (snd (foldl (walkStep structuredVisitor links) (st, s) items))"
proof (induction items arbitrary: st s)
  case Nil
  then show ?case by simp
next
  case (Cons item items)
  obtain st' s' where w: "walkStep structuredVisitor links (st, s) item = (st', s')"
    by (cases "walkStep structuredVisitor links (st, s) item")
  with sink_ok_walkStep[OF Cons.prems, of links st item] have "sink_ok s'" by simp
  from Cons.IH[OF this, of st'] w show ?case by simp
qed

lemma sink_ok_walkSorted:
  "sink_ok s \<Longrightarrow> walkSorted structuredVisitor links sortedItems s = Some s' \<Longrightarrow> sink_ok s'"
  by (cases sortedItems) (auto simp: walkSorted_def sink_ok_foldl sink_ok_onEnd simp del: foldl_Cons)

lemma sortTextItems_nonempty:
  "items \<noteq> [] \<Longrightarrow> \<exists>f r. sortTextItems items = Some (f # r)"
proof -
  assume ne: "items \<noteq> []"
  from sortedLines_mset[OF ne] obtain lines where
    l: "sortedLines items = Some lines" "mset (concat lines) = mset (tagItems items)" by blast
  from reorderColumnRegions_total[OF sortedLines_nonempty[OF l(1)]] obtain out where
    o: "reorderColumnRegions lines = Some out" by blast
  from reorderColumnRegions_mset[OF o] l(2)
  have "length (map entry_item (concat out)) = length (map entry_item (tagItems items))"
    by (metis size_mset length_map)
  then have "length (map entry_item (concat out)) = length items"
    by (simp only: entry_item_tagItems)
  with ne obtain f r where "map entry_item (concat out) = f # r"
    by (cases "map entry_item (concat out)") auto
  with ne l(1) o show ?thesis by (simp add: sortTextItems_def)
qed

text \<open>
  Claim C10.  Without placeholder stripping every line that \<open>assembleStructuredItems\<close>
  returns has as text the texts of its spans, concatenated in order; a result is returned
  for every list of items and links.  The same holds for the walk of the structured sink
  over any order of the items.
\<close>

theorem structured_line_text:
  "(\<exists>lines. assembleStructuredItems items links (Some False) = Some lines \<and>
      (\<forall>line\<in>set lines. line_text line = concat (map span_text (line_spans line)))) \<and>
   (walkSorted structuredVisitor links sortedItems emptySink = Some s \<longrightarrow>
      (\<forall>line\<in>set (result s). line_text line = concat (map span_text (line_spans line))))"
proof (intro conjI impI)
  have e: "sink_ok emptySink" by (simp add: sink_ok_def emptySink_def textOfSpans_def)
  show "\<exists>lines. assembleStructuredItems items links (Some False) = Some lines \<and>
      (\<forall>line\<in>set lines. line_text line = concat (map span_text (line_spans line)))"
  proof (cases "items = []")
    case True
    then show ?thesis by (simp add: assembleStructuredItems_def)
  next
    case False
    from sortTextItems_nonempty[OF False] obtain f r where
      s: "sortTextItems items = Some (f # r)" by blast
    then obtain s' where w: "walkItems items links structuredVisitor emptySink = Some s'"
      by (simp add: walkItems_def walkSorted_def)
    with s have "walkSorted structuredVisitor links (f # r) emptySink = Some s'"
      by (simp add: walkItems_def)
    from sink_ok_walkSorted[OF e this] have "sink_ok s'" .
    with False w show ?thesis
      by (simp add: assembleStructuredItems_def emptySink_def[symmetric] sink_ok_def textOfSpans_def)
  qed
  assume "walkSorted structuredVisitor links sortedItems emptySink = Some s"
  from sink_ok_walkSorted[OF e this]
  show "\<forall>line\<in>set (result s). line_text line = concat (map span_text (line_spans line))"
    by (simp add: sink_ok_def textOfSpans_def)
qed

lemma ex_sort_hello:
  "sortTextItems [makeItem ''Hello'' 0 100 12 30, makeItem ''World'' 40 100 12 25]
     = Some [makeItem ''Hello'' 0 100 12 30, makeItem ''World'' 40 100 12 25]"
  by code_simp

lemma ex_structured:
  "assembleStructuredItems [makeItem ''Hello'' 0 100 12 30, makeItem ''World'' 40 100 12 25] []
     (Some False) =
   Some [\<lparr>line_text = js ''Hello World'',
          line_spans = [\<lparr>span_text = js ''Hello World'', span_bold = False, span_italic = False,
                         span_link = None\<rparr>],
          line_fontSize = 12, line_y = 100, line_isBlankAfter = False\<rparr>]"
proof -
  have "walkItems [makeItem ''Hello'' 0 100 12 30, makeItem ''World'' 40 100 12 25] []
          structuredVisitor emptySink
      = walkSorted structuredVisitor []
          [makeItem ''Hello'' 0 100 12 30, makeItem ''World'' 40 100 12 25] emptySink"
    by (simp add: walkItems_def ex_sort_hello)
  also have "\<dots> = Some \<lparr>result = [\<lparr>line_text = js ''Hello World'',
          line_spans = [\<lparr>span_text = js ''Hello World'', span_bold = False, span_italic = False,
                         span_link = None\<rparr>],
          line_fontSize = 12, line_y = 100, line_isBlankAfter = False\<rparr>],
        currentSpans = [], currentText = [], currentFontSize = 12, currentY = 100\<rparr>"
    by (simp add: walkSorted_def walkStep_def structuredVisitor_def appendToSpans_def pushLine_def
        normalizePUA_def detectFontStyle_def toLowerAscii_def makeItem_def js_def
        initialWalkState_def orElse_def shouldInsertSpace_def emptySink_def Let_def)
  finally show ?thesis
    by (simp add: assembleStructuredItems_def emptySink_def[symmetric])
qed

lemma ex_structured_reversed:
  "walkSorted structuredVisitor []
     [makeItem ''World'' 40 100 12 25, makeItem ''Hello'' 0 100 12 30] emptySink =
   Some \<lparr>result = [\<lparr>line_text = js ''World Hello'',
          line_spans = [\<lparr>span_text = js ''World Hello'', span_bold = False, span_italic = False,
                         span_link = None\<rparr>],
          line_fontSize = 12, line_y = 100, line_isBlankAfter = False\<rparr>],
        currentSpans = [], currentText = [], currentFontSize = 12, currentY = 100\<rparr>"
  by (simp add: walkSorted_def walkStep_def structuredVisitor_def appendToSpans_def pushLine_def
      normalizePUA_def detectFontStyle_def toLowerAscii_def makeItem_def js_def
      initialWalkState_def orElse_def shouldInsertSpace_def emptySink_def Let_def)

theorem structured_line_text_witness:
  "assembleStructuredItems [makeItem ''Hello'' 0 100 12 30, makeItem ''World'' 40 100 12 25] []
     (Some False) =
   Some [\<lparr>line_text = js ''Hello World'',
          line_spans = [\<lparr>span_text = js ''Hello World'', span_bold = False, span_italic = False,
                         span_link = None\<rparr>],
          line_fontSize = 12, line_y = 100, line_isBlankAfter = False\<rparr>] \<and>
   js ''Hello World'' = concat (map span_text
      [\<lparr>span_text = js ''Hello World'', span_bold = False, span_italic = False,
        span_link = None\<rparr>]) \<and>
   map line_text (result (the (walkSorted structuredVisitor []
      [makeItem ''World'' 40 100 12 25, makeItem ''Hello'' 0 100 12 30] emptySink)))
     = [js ''World Hello''] \<and>
   map (\<lambda>line. concat (map span_text (line_spans line)))
     (result (the (walkSorted structuredVisitor []
        [makeItem ''World'' 40 100 12 25, makeItem ''Hello'' 0 100 12 30] emptySink)))
     = [js ''World Hello'']"
proof -
  note inst = structured_line_text[where
      items = "[makeItem ''Hello'' 0 100 12 30, makeItem ''World'' 40 100 12 25]" and
      links = "[]" and
      sortedItems = "[makeItem ''World'' 40 100 12 25, makeItem ''Hello'' 0 100 12 30]" and
      s = "the (walkSorted structuredVisitor []
        [makeItem ''World'' 40 100 12 25, makeItem ''Hello'' 0 100 12 30] emptySink)"]
  have r: "result (the (walkSorted structuredVisitor []
        [makeItem ''World'' 40 100 12 25, makeItem ''Hello'' 0 100 12 30] emptySink))
      = [\<lparr>line_text = js ''World Hello'',
          line_spans = [\<lparr>span_text = js ''World Hello'', span_bold = False, span_italic = False,
                         span_link = None\<rparr>],
          line_fontSize = 12, line_y = 100, line_isBlankAfter = False\<rparr>]"
    by (simp only: ex_structured_reversed option.sel SinkState.simps)
  from inst[THEN conjunct1] have
    "js ''Hello World'' = concat (map span_text
      [\<lparr>span_text = js ''Hello World'', span_bold = False, span_italic = False,
        span_link = None\<rparr>])"
    unfolding ex_structured by simp
  moreover from inst[THEN conjunct2] have
    "map (\<lambda>line. concat (map span_text (line_spans line)))
     (result (the (walkSorted structuredVisitor []
        [makeItem ''World'' 40 100 12 25, makeItem ''Hello'' 0 100 12 30] emptySink)))
     = [js ''World Hello'']"
    using ex_structured_reversed by (simp add: r)
  moreover have "map line_text (result (the (walkSorted structuredVisitor []
      [makeItem ''World'' 40 100 12 25, makeItem ''Hello'' 0 100 12 30] emptySink)))
     = [js ''World Hello'']"
    by (simp add: r)
  ultimately show ?thesis using ex_structured by blast
qed

section \<open>What the column detector reads of the lines\<close>




















section \<open>Sorting twice\<close>


































end
